theory Spec2Isabelle
  imports Main
begin

section \<open>Python strings\<close>

text \<open>
  A Python \<open>str\<close> is modelled as a \<open>string\<close> whose characters are the code points
  0 to 255 (ISO-8859-1). The character tests below are Python's own on that range.
\<close>

definition ord :: "char \<Rightarrow> nat" where
  "ord c = of_char c"

definition ascii_digit :: "char \<Rightarrow> bool" where
  "ascii_digit c = (48 \<le> ord c \<and> ord c \<le> 57)"

definition ascii_upper :: "char \<Rightarrow> bool" where
  "ascii_upper c = (65 \<le> ord c \<and> ord c \<le> 90)"

definition ascii_lower :: "char \<Rightarrow> bool" where
  "ascii_lower c = (97 \<le> ord c \<and> ord c \<le> 122)"

definition ascii_alnum :: "char \<Rightarrow> bool" where
  "ascii_alnum c = (ascii_upper c \<or> ascii_lower c \<or> ascii_digit c)"

text \<open>\<open>ch.isdigit()\<close>: the ASCII digits and the superscript digits U+00B2, U+00B3, U+00B9.\<close>

definition isdigit_ch :: "char \<Rightarrow> bool" where
  "isdigit_ch c = (ascii_digit c \<or> ord c = 178 \<or> ord c = 179 \<or> ord c = 185)"

text \<open>\<open>ch.isalpha()\<close>: the ASCII letters, U+00AA, U+00B5, U+00BA and the accented letters.\<close>

definition isalpha_ch :: "char \<Rightarrow> bool" where
  "isalpha_ch c = (ascii_upper c \<or> ascii_lower c \<or> ord c = 170 \<or> ord c = 181 \<or> ord c = 186
     \<or> (192 \<le> ord c \<and> ord c \<noteq> 215 \<and> ord c \<noteq> 247))"

text \<open>\<open>s.isdigit()\<close> and \<open>s.isalpha()\<close> are false on the empty string.\<close>

definition isdigit :: "string \<Rightarrow> bool" where
  "isdigit s = (s \<noteq> [] \<and> list_all isdigit_ch s)"

definition isalpha :: "string \<Rightarrow> bool" where
  "isalpha s = (s \<noteq> [] \<and> list_all isalpha_ch s)"

text \<open>\<open>chr(n)\<close> for a code point below 256.\<close>

definition chr :: "nat \<Rightarrow> char" where
  "chr n = char_of n"

text \<open>
  \<open>s.upper()\<close>: a lower-case letter moves 32 code points down; U+00DF becomes \<open>SS\<close>;
  U+00B5 and U+00FF, whose capitals lie beyond U+00FF, are kept (both stay non-ASCII
  letters).
\<close>

definition upper_ch :: "char \<Rightarrow> string" where
  "upper_ch c =
     (if ord c = 223 then ''SS''
      else if ascii_lower c \<or> (224 \<le> ord c \<and> ord c \<le> 254 \<and> ord c \<noteq> 247)
      then [chr (ord c - 32)]
      else [c])"

definition upper :: "string \<Rightarrow> string" where
  "upper s = concat (map upper_ch s)"

text \<open>\<open>str(n)\<close> for a natural number.\<close>

definition digit_ch :: "nat \<Rightarrow> char" where
  "digit_ch k = ''0123456789'' ! k"

function str_nat :: "nat \<Rightarrow> string" where
  "str_nat n =
     (if n < 10 then [digit_ch n]
      else str_nat (n div 10) @ [digit_ch (n mod 10)])"
  by pat_completeness auto
termination
  by (relation "measure id") auto

declare str_nat.simps [simp del]

text \<open>
  \<open>int(s)\<close> on a string that passed \<open>isdigit\<close>: the value of an ASCII numeral; a
  ValueError (\<open>None\<close>) on a superscript digit and on a numeral longer than the
  interpreter's limit for conversions (4300 digits).
\<close>

definition digit_val :: "char \<Rightarrow> int" where
  "digit_val c = int (ord c) - 48"

definition num_of_digits :: "string \<Rightarrow> int" where
  "num_of_digits s = foldl (\<lambda>a c. 10 * a + digit_val c) 0 s"

definition int_max_str_digits :: nat where
  "int_max_str_digits = 4300"

definition int_of_digits :: "string \<Rightarrow> int option" where
  "int_of_digits s =
     (if s = [] \<or> \<not> list_all ascii_digit s \<or> int_max_str_digits < length s then None
      else Some (num_of_digits s))"

text \<open>\<open>ch.isspace()\<close> and \<open>s.strip()\<close>.\<close>

definition isspace_ch :: "char \<Rightarrow> bool" where
  "isspace_ch c = ((9 \<le> ord c \<and> ord c \<le> 13) \<or> (28 \<le> ord c \<and> ord c \<le> 32)
     \<or> ord c = 133 \<or> ord c = 160)"

definition strip :: "string \<Rightarrow> string" where
  "strip s = rev (dropWhile isspace_ch (rev (dropWhile isspace_ch s)))"

text \<open>The format \<open>f"{n:02d}"\<close>: at least two characters, padded with zeros after the sign.\<close>

definition fmt_02d :: "int \<Rightarrow> string" where
  "fmt_02d n =
     (if n < 0 then CHR ''-'' # str_nat (nat (- n))
      else if n < 10 then CHR ''0'' # str_nat (nat n)
      else str_nat (nat n))"

section \<open>Text normalisation (utils.py, rib\_extractor.py)\<close>

text \<open>\<open>compacter\<close> removes every character outside \<open>[A-Za-z0-9]\<close>.\<close>

definition compacter :: "string \<Rightarrow> string" where
  "compacter texte = filter ascii_alnum texte"

section \<open>The RIB key (utils.py, rib\_extractor.py)\<close>

definition lettre_vers_nombre :: "char \<Rightarrow> string" where
  "lettre_vers_nombre ch =
     (if isdigit_ch ch then [ch]
      else if ascii_upper ch then str_nat (10 + ord ch - ord (CHR ''A''))
      else [])"

definition lettres_vers_nombres :: "string \<Rightarrow> string" where
  "lettres_vers_nombres s = concat (map lettre_vers_nombre (upper s))"

definition calculer_cle_rib :: "string \<Rightarrow> string \<Rightarrow> string \<Rightarrow> string" where
  "calculer_cle_rib cb cg nc =
     (if \<not> (cb \<noteq> [] \<and> cg \<noteq> [] \<and> nc \<noteq> []) then ''''
      else let base = cb @ cg @ lettres_vers_nombres nc in
        if \<not> isdigit base then ''''
        else case int_of_digits base of
               None \<Rightarrow> ''''
             | Some n \<Rightarrow> fmt_02d (97 - n mod 97))"

section \<open>The IBAN library\<close>

text \<open>
  Modelled from the spec: the functions \<open>compact\<close>, \<open>is_valid\<close> and \<open>format\<close> of the
  external library \<open>stdnum.iban\<close>, which the repository imports and does not contain.
  The checksum is the one of section 4.2 of the specification: the four leading characters
  are moved to the end, every character is read in base 36 (A = 10 .. Z = 35) and written
  in decimal, and the numeral obtained must be 1 modulo 97.
\<close>

definition b36_digits :: "char \<Rightarrow> string" where
  "b36_digits c =
     (if ascii_digit c then [c]
      else if ascii_upper c then str_nat (10 + ord c - 65)
      else if ascii_lower c then str_nat (10 + ord c - 97)
      else [])"

definition to_base10 :: "string \<Rightarrow> string option" where
  "to_base10 s = (if list_all ascii_alnum s then Some (concat (map b36_digits s)) else None)"

definition mod97_checksum :: "string \<Rightarrow> int option" where
  "mod97_checksum s =
     (case to_base10 s of
        None \<Rightarrow> None
      | Some d \<Rightarrow> if d = [] then None else Some (num_of_digits d mod 97))"

text \<open>
  Modelled from the spec: \<open>stdnum.iban.compact\<close>, which removes the separators (space,
  hyphen, full stop) and the surrounding white space and puts the number in upper case.
  The library first replaces the look-alikes of a separator by the separator itself; on
  the code points 0 to 255 these are the no-break space U+00A0 (a space), the macron U+00AF
  (a hyphen) and the middle dot U+00B7 (a full stop), which are therefore removed as well.
\<close>

definition iban_separator :: "char \<Rightarrow> bool" where
  "iban_separator c = (c \<in> set '' -.'' \<or> ord c = 160 \<or> ord c = 175 \<or> ord c = 183)"

definition iban_compact :: "string \<Rightarrow> string" where
  "iban_compact number = upper (strip (filter (\<lambda>c. \<not> iban_separator c) number))"

text \<open>
  Modelled from the spec: the shape of a French IBAN (glossary: \<open>FR\<close>, two check
  characters and a BBAN of 23 characters, that is bank code and branch code of five digits
  each, an account number of eleven letters or digits and a key of two digits).
\<close>

definition bban_fr :: "string \<Rightarrow> bool" where
  "bban_fr b = (length b = 23 \<and> list_all ascii_digit (take 10 b)
     \<and> list_all ascii_alnum (take 11 (drop 10 b)) \<and> list_all ascii_digit (drop 21 b))"

definition mod97_ok :: "string \<Rightarrow> bool" where
  "mod97_ok n = (mod97_checksum (drop 4 n @ take 4 n) = Some 1)"

text \<open>
  Modelled from the spec: \<open>stdnum.iban.is_valid\<close>. Only the French entry of the IBAN
  registry is modelled; every call of the repository passes a string that starts with
  \<open>FR\<close>.
\<close>

definition iban_is_valid :: "string \<Rightarrow> bool" where
  "iban_is_valid number =
     (let n = iban_compact number
      in mod97_ok n \<and> take 2 n = ''FR'' \<and> bban_fr (drop 4 n))"

text \<open>Modelled from the spec: \<open>stdnum.iban.format\<close>, groups of four separated by a space.\<close>

fun group4 :: "string \<Rightarrow> string" where
  "group4 (a # b # c # d # e # rest) = a # b # c # d # CHR '' '' # group4 (e # rest)"
| "group4 s = s"

definition iban_format :: "string \<Rightarrow> string" where
  "iban_format number = group4 (iban_compact number)"

text \<open>
  The expression \<open>iban_lib.from_bban("FR", bban)\<close> of the source. The module
  \<open>stdnum.iban\<close> provides \<open>compact\<close>, \<open>validate\<close>, \<open>is_valid\<close>, \<open>format\<close> and
  \<open>calc_check_digits\<close> and no attribute named \<open>from_bban\<close>: the look-up of the name
  raises \<open>AttributeError\<close> before any argument is used. \<open>None\<close> is that exception.
\<close>

definition iban_from_bban :: "string \<Rightarrow> string \<Rightarrow> string option" where
  "iban_from_bban cc bban = None"

section \<open>Building and decomposing a French IBAN (utils.py, rib\_extractor.py)\<close>

text \<open>
  \<open>construire_iban_fr\<close> calls \<open>from_bban\<close> inside \<open>try\<close>; the clause
  \<open>except Exception: pass\<close> swallows the exception and the function falls through to
  \<open>return ""\<close>.
\<close>

definition construire_iban_fr :: "string \<Rightarrow> string \<Rightarrow> string \<Rightarrow> string \<Rightarrow> string" where
  "construire_iban_fr cb cg nc cle =
     (if \<not> (cb \<noteq> [] \<and> cg \<noteq> [] \<and> nc \<noteq> [] \<and> cle \<noteq> []) then ''''
      else let bban = cb @ cg @ nc @ cle in
        case iban_from_bban ''FR'' bban of
          None \<Rightarrow> ''''
        | Some iban \<Rightarrow> if iban_is_valid iban then iban_format iban else '''')"

definition decomposer_iban_fr :: "string \<Rightarrow> string \<times> string \<times> string \<times> string" where
  "decomposer_iban_fr iban =
     (if iban = [] then ('''', '''', '''', '''')
      else let c = upper (iban_compact iban) in
        if \<not> (take 2 c = ''FR'' \<and> iban_is_valid c) then ('''', '''', '''', '''')
        else let bban = drop 4 c in
          (take 5 bban, take 5 (drop 5 bban), take 11 (drop 10 bban), take 2 (drop 21 bban)))"

section \<open>Normalising a BIC (utils.py, app.py)\<close>

text \<open>
  \<open>bic_lib\<close> is the optional validator loaded at import time: \<open>None\<close> when neither
  \<open>stdnum.swiftbic\<close> nor \<open>stdnum.bic\<close> is installed; otherwise its \<open>is_valid\<close>, whose
  result \<open>None\<close> stands for a raised exception.
\<close>

type_synonym bic_lib = "(string \<Rightarrow> bool option) option"

definition valider_normaliser_bic :: "bic_lib \<Rightarrow> string \<Rightarrow> string" where
  "valider_normaliser_bic lib raw =
     (if raw = [] then ''''
      else let bic = filter ascii_alnum (upper raw) in
        if length bic \<noteq> 8 \<and> length bic \<noteq> 11 then ''''
        else if \<not> (isalpha (take 4 bic) \<and> isalpha (take 2 (drop 4 bic))) then ''''
        else if take 2 (drop 4 bic) \<noteq> ''FR'' then ''''
        else case lib of
               None \<Rightarrow> bic
             | Some is_valid \<Rightarrow>
                 (case is_valid bic of Some True \<Rightarrow> bic | _ \<Rightarrow> ''''))"

definition nettoyer_bic :: "string \<Rightarrow> string" where
  "nettoyer_bic bic =
     (if bic = [] then ''''
      else let b = upper (filter ascii_alnum bic)
        in if 11 \<le> length b then take 11 b else take 8 b)"

section \<open>Regular expressions (Python's re module)\<close>

text \<open>
  The patterns of the source are values of \<open>rx\<close>; \<open>rmatch\<close> is the backtracking matcher
  of \<open>re\<close>: from a position and the groups captured so far it lists the outcomes (end
  position, groups) in the order in which backtracking tries them, so the head of the
  list is the match \<open>re\<close> reports. A group is recorded as (number, start, end).
\<close>

datatype rx =
    Cls "char \<Rightarrow> bool"
  | Eps
  | Bnd
  | Seq rx rx
  | Alt rx rx
  | Rep rx nat "nat option" bool
  | Grp nat rx

type_synonym mstate = "nat \<times> (nat \<times> nat \<times> nat) list"

text \<open>
  \<open>rep f greedy lo hi n st\<close>: between \<open>lo\<close> and \<open>hi\<close> iterations of \<open>f\<close> (\<open>hi = None\<close>
  for no upper bound), the longer runs first when greedy. An iteration consumes at least
  one character (every repeated item of the source's patterns does), so no run has more
  iterations than the subject has characters, which is the bound \<open>n\<close> given by \<open>rmatch\<close>.
\<close>

fun rep :: "(mstate \<Rightarrow> mstate list) \<Rightarrow> bool \<Rightarrow> nat \<Rightarrow> nat option \<Rightarrow> nat \<Rightarrow> mstate \<Rightarrow> mstate list" where
  "rep f greedy lo hi 0 st = (if lo = 0 then [st] else [])"
| "rep f greedy lo hi (Suc n) st =
     (let stop = (if lo = 0 then [st] else []);
          more = (if hi = Some 0 then []
                  else concat (map (\<lambda>st'. if fst st' = fst st then []
                                         else rep f greedy (lo - 1) (map_option (\<lambda>h. h - 1) hi) n st')
                                (f st)))
      in if greedy then more @ stop else stop @ more)"

text \<open>\<open>\w\<close>: the characters with \<open>isalnum()\<close>, and the underscore.\<close>

definition word_ch :: "char \<Rightarrow> bool" where
  "word_ch c = (isalpha_ch c \<or> isdigit_ch c \<or> (188 \<le> ord c \<and> ord c \<le> 190) \<or> c = CHR ''_'')"

definition boundary :: "string \<Rightarrow> nat \<Rightarrow> bool" where
  "boundary s i =
     ((0 < i \<and> i \<le> length s \<and> word_ch (s ! (i - 1))) \<noteq> (i < length s \<and> word_ch (s ! i)))"

primrec rmatch :: "rx \<Rightarrow> string \<Rightarrow> mstate \<Rightarrow> mstate list" where
  "rmatch (Cls p) s st =
     (if fst st < length s \<and> p (s ! fst st) then [(Suc (fst st), snd st)] else [])"
| "rmatch Eps s st = [st]"
| "rmatch Bnd s st = (if boundary s (fst st) then [st] else [])"
| "rmatch (Seq a b) s st = concat (map (rmatch b s) (rmatch a s st))"
| "rmatch (Alt a b) s st = rmatch a s st @ rmatch b s st"
| "rmatch (Rep r lo hi greedy) s st = rep (rmatch r s) greedy lo hi (length s) st"
| "rmatch (Grp k r) s st =
     map (\<lambda>st'. (fst st', (k, fst st, fst st') # snd st')) (rmatch r s st)"

text \<open>Literal text, and literal text under the flag \<open>(?i)\<close> (written in capitals).\<close>

definition Lit :: "string \<Rightarrow> rx" where
  "Lit w = foldr (\<lambda>c r. Seq (Cls (\<lambda>x. x = c)) r) w Eps"

definition LitI :: "string \<Rightarrow> rx" where
  "LitI w = foldr (\<lambda>c r. Seq (Cls (\<lambda>x. upper_ch x = [c])) r) w Eps"

definition Times :: "nat \<Rightarrow> rx \<Rightarrow> rx" where
  "Times n r = Rep r n (Some n) True"

definition Opt :: "rx \<Rightarrow> rx" where
  "Opt r = Rep r 0 (Some 1) True"

definition Star :: "rx \<Rightarrow> rx" where
  "Star r = Rep r 0 None True"

definition LazyStar :: "rx \<Rightarrow> rx" where
  "LazyStar r = Rep r 0 None False"

fun Seqs :: "rx list \<Rightarrow> rx" where
  "Seqs [] = Eps"
| "Seqs [r] = r"
| "Seqs (r # rs) = Seq r (Seqs rs)"

fun Alts :: "rx list \<Rightarrow> rx" where
  "Alts [] = Eps"
| "Alts [r] = r"
| "Alts (r # rs) = Alt r (Alts rs)"

text \<open>
  \<open>search_from r s i\<close>: the leftmost match that starts at \<open>i\<close> or later, as its start and
  its outcome; \<open>finditer\<close> lists the matches that do not overlap, \<open>findall\<close> their texts
  (for a pattern without groups) and \<open>group\<close> reads the text of a group.
\<close>

function search_from :: "rx \<Rightarrow> string \<Rightarrow> nat \<Rightarrow> (nat \<times> mstate) option" where
  "search_from r s i =
     (if length s < i then None
      else case rmatch r s (i, []) of
             [] \<Rightarrow> search_from r s (Suc i)
           | st # _ \<Rightarrow> Some (i, st))"
  by pat_completeness auto
termination
  by (relation "measure (\<lambda>(r, s, i). Suc (length s) - i)") auto

declare search_from.simps [simp del]

definition search :: "rx \<Rightarrow> string \<Rightarrow> (nat \<times> mstate) option" where
  "search r s = search_from r s 0"

text \<open>
  After a match from \<open>a\<close> to \<open>b\<close> the scan resumes at \<open>b\<close>, or at \<open>a + 1\<close> when the match
  is empty; a match found from \<open>i\<close> starts at \<open>i\<close> or later, so that position is beyond
  \<open>i\<close>.
\<close>

function finditer_from :: "rx \<Rightarrow> string \<Rightarrow> nat \<Rightarrow> (nat \<times> mstate) list" where
  "finditer_from r s i =
     (if length s < i then []
      else case search_from r s i of
             None \<Rightarrow> []
           | Some (a, st) \<Rightarrow>
               (a, st) # finditer_from r s (max (Suc i) (if a < fst st then fst st else Suc a)))"
  by pat_completeness auto
termination
  by (relation "measure (\<lambda>(r, s, i). Suc (length s) - i)") auto

declare finditer_from.simps [simp del]

definition finditer :: "rx \<Rightarrow> string \<Rightarrow> (nat \<times> mstate) list" where
  "finditer r s = finditer_from r s 0"

definition findall :: "rx \<Rightarrow> string \<Rightarrow> string list" where
  "findall r s = map (\<lambda>(a, st). take (fst st - a) (drop a s)) (finditer r s)"

definition group :: "string \<Rightarrow> nat \<times> mstate \<Rightarrow> nat \<Rightarrow> string" where
  "group s m k =
     (case find (\<lambda>g. fst g = k) (snd (snd m)) of
        None \<Rightarrow> ''''
      | Some (_, a, b) \<Rightarrow> take (b - a) (drop a s))"

definition upper_or_digit :: "char \<Rightarrow> bool" where
  "upper_or_digit c = (ascii_upper c \<or> ascii_digit c)"

definition any_ch :: "char \<Rightarrow> bool" where
  "any_ch c = True"

section \<open>The patterns of the source\<close>

text \<open>\<open>FR\d{2}[A-Z0-9]{23}\<close>\<close>

definition PAT_IBAN_FR_COMPACT :: rx where
  "PAT_IBAN_FR_COMPACT =
     Seqs [Lit ''FR'', Times 2 (Cls ascii_digit), Times 23 (Cls upper_or_digit)]"

text \<open>\<open>(?i)\bIBAN\b\s*[:\-]?\s*([A-Z0-9 ]{8,50})\<close>\<close>

definition PAT_IBAN_LABEL :: rx where
  "PAT_IBAN_LABEL =
     Seqs [Bnd, LitI ''IBAN'', Bnd, Star (Cls isspace_ch),
           Opt (Cls (\<lambda>c. c = CHR '':'' \<or> c = CHR ''-'')), Star (Cls isspace_ch),
           Grp 1 (Rep (Cls (\<lambda>c. ascii_alnum c \<or> c = CHR '' '')) 8 (Some 50) True)]"

text \<open>\<open>\b[A-Z]{4}[A-Z]{2}[A-Z0-9]{2}(?:[A-Z0-9]{3})?\b\<close> (the second assignment in utils.py).\<close>

definition PAT_BIC_CODE :: rx where
  "PAT_BIC_CODE =
     Seqs [Bnd, Times 4 (Cls ascii_upper), Times 2 (Cls ascii_upper),
           Times 2 (Cls upper_or_digit), Opt (Times 3 (Cls upper_or_digit)), Bnd]"

text \<open>The pieces of the label patterns: \<open>[\.\s]*\<close>, \<open>B[\.\s]*I[\.\s]*C\<close> and so on.\<close>

definition dots :: rx where
  "dots = Star (Cls (\<lambda>c. c = CHR ''.'' \<or> isspace_ch c))"

definition lbl_bic :: rx where
  "lbl_bic = Seqs [LitI ''B'', dots, LitI ''I'', dots, LitI ''C'']"

definition lbl_swift :: rx where
  "lbl_swift = Seqs [LitI ''S'', dots, LitI ''W'', dots, LitI ''I'', dots, LitI ''F'', dots, LitI ''T'']"

definition opt_code :: rx where
  "opt_code = Opt (Seq (Star (Cls isspace_ch)) (LitI ''CODE''))"

definition lbl_bic_swift :: rx where
  "lbl_bic_swift =
     Seq lbl_bic
       (Opt (Seqs [Star (Cls (\<lambda>c. isspace_ch c \<or> c \<in> set ''./:-'')), lbl_swift, opt_code]))"

definition lbl_code_bic :: rx where
  "lbl_code_bic = Seqs [LitI ''CODE'', Star (Cls isspace_ch), lbl_bic]"

definition lbl_adresse_swift :: rx where
  "lbl_adresse_swift = Seqs [LitI ''ADRESSE'', Star (Cls isspace_ch), lbl_swift]"

text \<open>\<open>PAT_BIC\<close> of utils.py: the four labels in a group between two \<open>\b\<close>.\<close>

definition PAT_BIC_utils :: rx where
  "PAT_BIC_utils =
     Seqs [Bnd, Grp 1 (Alts [lbl_bic_swift, Seq lbl_swift opt_code, lbl_code_bic,
                            lbl_adresse_swift]), Bnd]"

text \<open>\<open>PAT_BIC\<close> of rib\_extractor.py: no \<open>\b\<close>, and \<open>SWIFT\<close> without separators.\<close>

definition PAT_BIC_rib_extractor :: rx where
  "PAT_BIC_rib_extractor =
     Alts [lbl_bic_swift, Seq (LitI ''SWIFT'') opt_code, lbl_code_bic, lbl_adresse_swift]"

text \<open>The three patterns of \<open>nettoyer_reponse_json\<close>, compiled with \<open>re.DOTALL\<close>.\<close>

definition braces :: "rx \<Rightarrow> rx" where
  "braces inner = Grp 1 (Seqs [Lit ''{'', inner, Lit ''}''])"

definition PAT_JSON_FENCE :: rx where
  "PAT_JSON_FENCE =
     Seqs [Lit ''```json'', Star (Cls isspace_ch), braces (LazyStar (Cls any_ch)),
           Star (Cls isspace_ch), Lit ''```'']"

definition PAT_FENCE :: rx where
  "PAT_FENCE =
     Seqs [Lit ''```'', Star (Cls isspace_ch), braces (LazyStar (Cls any_ch)),
           Star (Cls isspace_ch), Lit ''```'']"

definition PAT_BRACES :: rx where
  "PAT_BRACES = braces (Star (Cls any_ch))"


section \<open>Lines\<close>

text \<open>
  \<open>texte.splitlines()\<close>: a line ends at a line feed, a carriage return (with the line
  feed that follows it), a vertical tab, a form feed, U+001C to U+001E or U+0085; no empty
  line is added after the last break. The flag tells that the last break was a carriage
  return.
\<close>

definition line_break :: "char \<Rightarrow> bool" where
  "line_break c = ((10 \<le> ord c \<and> ord c \<le> 13) \<or> (28 \<le> ord c \<and> ord c \<le> 30) \<or> ord c = 133)"

fun splitlines_from :: "bool \<Rightarrow> string \<Rightarrow> string \<Rightarrow> string list" where
  "splitlines_from cr cur [] = (if cur = [] then [] else [cur])"
| "splitlines_from cr cur (c # cs) =
     (if cr \<and> ord c = 10 then splitlines_from False cur cs
      else if line_break c then cur # splitlines_from (ord c = 13) [] cs
      else splitlines_from False (cur @ [c]) cs)"

definition splitlines :: "string \<Rightarrow> string list" where
  "splitlines texte = splitlines_from False [] texte"

text \<open>\<open>texte.split("\n")\<close> and \<open>"\n".join(lignes)\<close>.\<close>

fun split_from :: "string \<Rightarrow> string \<Rightarrow> string list" where
  "split_from cur [] = [cur]"
| "split_from cur (c # cs) =
     (if ord c = 10 then cur # split_from [] cs else split_from (cur @ [c]) cs)"

definition split_nl :: "string \<Rightarrow> string list" where
  "split_nl texte = split_from [] texte"

fun join_nl :: "string list \<Rightarrow> string" where
  "join_nl [] = ''''"
| "join_nl [l] = l"
| "join_nl (l # ls) = l @ CHR 0x0A # join_nl ls"

section \<open>Finding a valid IBAN (utils.py, rib\_extractor.py)\<close>

text \<open>
  The second loop of \<open>extraire_iban_valide\<close>, over the matches of the label pattern in
  the order of the text.
\<close>

fun iban_par_label :: "string \<Rightarrow> (nat \<times> mstate) list \<Rightarrow> string" where
  "iban_par_label t [] = ''''"
| "iban_par_label t (m # ms) =
     (let extrait = upper (compacter (group t m 1)) in
        if take 2 extrait = ''FR'' \<and> 27 \<le> length extrait \<and> iban_is_valid (take 27 extrait)
        then iban_format (take 27 extrait)
        else iban_par_label t ms)"

text \<open>
  The first loop runs over \<open>set(findall(...))\<close>, a Python set, whose order of iteration
  is not specified: whichever valid candidate comes first is returned. The model gives
  the set of the results the call can have.
\<close>

definition extraire_iban_valide :: "string \<Rightarrow> string set" where
  "extraire_iban_valide t =
     (let compact = upper (compacter t);
          valides = filter iban_is_valid (findall PAT_IBAN_FR_COMPACT compact)
      in if valides \<noteq> [] then iban_format ` set valides
         else {iban_par_label t (finditer PAT_IBAN_LABEL t)})"

section \<open>Finding a BIC (utils.py)\<close>

text \<open>The loops \<open>for cand in candidats\<close>: the first candidate that is validated.\<close>

fun premier_valide :: "bic_lib \<Rightarrow> string list \<Rightarrow> string" where
  "premier_valide lib [] = ''''"
| "premier_valide lib (cand # cands) =
     (let bic = valider_normaliser_bic lib cand
      in if bic \<noteq> [] then bic else premier_valide lib cands)"

text \<open>
  The loop over the lines; the argument is \<open>lignes[i:]\<close>, and the empty string stands
  for a loop that ended without \<open>return\<close>.
\<close>

fun zones_bic :: "bic_lib \<Rightarrow> string list \<Rightarrow> string" where
  "zones_bic lib [] = ''''"
| "zones_bic lib (ligne # suite) =
     (if search PAT_BIC_utils ligne \<noteq> None then
        let fenetre = upper (join_nl (take 6 (ligne # suite)));
            compact = filter upper_or_digit fenetre;
            a = premier_valide lib (findall PAT_BIC_CODE compact)
        in if a \<noteq> [] then a
           else let b = premier_valide lib (findall PAT_BIC_CODE fenetre)
                in if b \<noteq> [] then b else zones_bic lib suite
      else zones_bic lib suite)"

definition extraire_bic_valide_utils :: "bic_lib \<Rightarrow> string \<Rightarrow> string" where
  "extraire_bic_valide_utils lib texte =
     (let z = zones_bic lib (splitlines texte)
      in if z \<noteq> [] then z
         else premier_valide lib
                (findall PAT_BIC_CODE (filter upper_or_digit (upper texte))))"

section \<open>Finding a BIC (rib\_extractor.py)\<close>

text \<open>
  \<open>for bic in candidats\<close> under a label: the validator of the library, when there is
  one, is called, and the candidate is returned whatever it answers.
\<close>

fun candidats_zone :: "bic_lib \<Rightarrow> string list \<Rightarrow> string option" where
  "candidats_zone lib [] = None"
| "candidats_zone lib (bic # suite) =
     (if (length bic = 8 \<or> length bic = 11) \<and> isalpha (take 4 bic)
         \<and> isalpha (take 2 (drop 4 bic))
      then if bic \<in> set [''PARIS'', ''BOULOGNE'', ''FRANCE''] then candidats_zone lib suite
           else (case lib of
                   None \<Rightarrow> Some bic
                 | Some is_valid \<Rightarrow>
                     (case is_valid bic of Some True \<Rightarrow> Some bic | _ \<Rightarrow> Some bic))
      else candidats_zone lib suite)"

text \<open>\<open>for j in range(idx, min(idx + 6, total))\<close>, on the lines of the window.\<close>

fun lignes_zone :: "bic_lib \<Rightarrow> string list \<Rightarrow> string option" where
  "lignes_zone lib [] = None"
| "lignes_zone lib (l # ls) =
     (case candidats_zone lib (findall PAT_BIC_CODE (upper l)) of
        Some bic \<Rightarrow> Some bic
      | None \<Rightarrow> lignes_zone lib ls)"

fun zones_bic_rib :: "bic_lib \<Rightarrow> string list \<Rightarrow> string option" where
  "zones_bic_rib lib [] = None"
| "zones_bic_rib lib (ligne # suite) =
     (if search PAT_BIC_rib_extractor ligne \<noteq> None then
        (case lignes_zone lib (take 6 (ligne # suite)) of
           Some bic \<Rightarrow> Some bic
         | None \<Rightarrow> zones_bic_rib lib suite)
      else zones_bic_rib lib suite)"

definition extraire_bic_valide_rib_extractor :: "bic_lib \<Rightarrow> string \<Rightarrow> string" where
  "extraire_bic_valide_rib_extractor lib texte =
     (case zones_bic_rib lib (split_nl texte) of
        Some bic \<Rightarrow> bic
      | None \<Rightarrow>
          (case find (\<lambda>bic. length bic = 8 \<or> length bic = 11)
                  (findall PAT_BIC_CODE (upper texte)) of
             Some bic \<Rightarrow> bic
           | None \<Rightarrow> ''''))"


section \<open>The vision-model path (app.py)\<close>

definition nettoyer_reponse_json :: "string \<Rightarrow> string" where
  "nettoyer_reponse_json texte =
     (if texte = [] then texte
      else case search PAT_JSON_FENCE texte of
        Some m \<Rightarrow> group texte m 1
      | None \<Rightarrow>
          (case search PAT_FENCE texte of
             Some m \<Rightarrow> group texte m 1
           | None \<Rightarrow>
               (case search PAT_BRACES texte of
                  Some m \<Rightarrow> group texte m 1
                | None \<Rightarrow> texte)))"

definition nettoyer_iban :: "string \<Rightarrow> string" where
  "nettoyer_iban iban =
     (if iban = [] then '''' else group4 (upper (filter (\<lambda>c. c \<noteq> CHR '' '') iban)))"

definition nettoyer_domiciliation :: "string \<Rightarrow> string" where
  "nettoyer_domiciliation d =
     (if d = [] then ''''
      else join_nl (filter (\<lambda>l. l \<noteq> []) (map strip (split_nl d))))"

text \<open>A row of the table, with the columns of the source.\<close>

record ligne =
  col_fichier :: string
  col_titulaire :: string
  col_code_banque :: string
  col_code_guichet :: string
  col_numero_compte :: string
  col_cle_rib :: string
  col_iban :: string
  col_bic :: string
  col_domiciliation :: string
  col_erreur :: string

definition startswith :: "string \<Rightarrow> string \<Rightarrow> bool" where
  "startswith s p = (take (length p) s = p)"

text \<open>\<open>data.get(cle, "")\<close> on the parsed object.\<close>

definition get :: "(string \<rightharpoonup> string) \<Rightarrow> string \<Rightarrow> string" where
  "get data cle = (case data cle of None \<Rightarrow> '''' | Some v \<Rightarrow> v)"

definition ligne_vide :: "string \<Rightarrow> string \<Rightarrow> ligne" where
  "ligne_vide nom err =
     \<lparr>col_fichier = nom, col_titulaire = '''', col_code_banque = '''',
      col_code_guichet = '''', col_numero_compte = '''', col_cle_rib = '''', col_iban = '''',
      col_bic = '''', col_domiciliation = '''', col_erreur = err\<rparr>"

text \<open>
  The body of the loop over the files (app.py, section 6), from the response
  \<open>raw_response\<close> that \<open>analyser_rib\<close> returned for the file. \<open>json_loads\<close> is
  \<open>json.loads\<close>, with \<open>None\<close> for an exception; the object it returns maps keys to
  strings, as the prompt requires. A response that parses to anything else is outside the
  domain of this function. In the source a JSON value that is not an object makes
  \<open>data.get\<close> raise, and a non-empty value that is not a string under \<open>iban\<close>,
  \<open>bic\<close> or \<open>domiciliation\<close> makes \<open>.replace\<close>, \<open>re.sub\<close> or \<open>.split\<close>
  raise; both happen outside the \<open>try\<close>, so that the script stops and no row is
  emitted for the file.
\<close>

definition traiter_reponse ::
  "(string \<Rightarrow> (string \<rightharpoonup> string) option) \<Rightarrow> string \<Rightarrow> string \<Rightarrow> ligne" where
  "traiter_reponse json_loads nom raw_response =
     (if startswith raw_response ''__ERROR__'' then ligne_vide nom raw_response
      else case json_loads (nettoyer_reponse_json raw_response) of
        None \<Rightarrow> ligne_vide nom (''R'' @ [CHR 0xE9] @ ''ponse IA non JSON'')
      | Some data \<Rightarrow>
          \<lparr>col_fichier = nom,
           col_titulaire = get data ''titulaire'',
           col_code_banque = get data ''code_banque'',
           col_code_guichet = get data ''code_guichet'',
           col_numero_compte = get data ''numero_compte'',
           col_cle_rib = get data ''cle_rib'',
           col_iban = nettoyer_iban (get data ''iban''),
           col_bic = nettoyer_bic (get data ''bic''),
           col_domiciliation = nettoyer_domiciliation (get data ''domiciliation''),
           col_erreur = ''''\<rparr>)"

section \<open>The OCR path (app\_with\_ocr.py, rib\_extractor.py)\<close>

text \<open>\<open>nz\<close> of app\_with\_ocr.py and \<open>nz\<close> of rib\_extractor.py.\<close>

definition nz_app :: "string \<Rightarrow> string" where
  "nz_app v = (if strip v \<noteq> [] then v else ''MANQUANT'')"

definition nz_rib :: "string \<Rightarrow> string" where
  "nz_rib v = (if v \<noteq> [] then v else ''MANQUANT'')"

text \<open>\<open>a or b\<close> on two strings.\<close>

definition ou :: "string \<Rightarrow> string \<Rightarrow> string" where
  "ou a b = (if a \<noteq> [] then a else b)"

text \<open>The values derived from the IBAN: \<open>cb = cg = nc = cle = ""\<close>, then the decomposition
  when an IBAN was found.\<close>

definition derives_iban :: "string \<Rightarrow> string \<times> string \<times> string \<times> string" where
  "derives_iban iban_trouve =
     (if iban_trouve \<noteq> [] then decomposer_iban_fr iban_trouve else ('''', '''', '''', ''''))"

text \<open>
  Steps 3 and 4 of the loop of app\_with\_ocr.py, which are also the ones of the loop of
  rib\_extractor.py: \<open>iban_trouve\<close> is the result of \<open>extraire_iban_valide\<close> and the four
  strings \<open>lb_*\<close> are the first four results of \<open>extraire_par_libelles\<close>. The result is
  \<open>(cb, cg, nc, cle, iban)\<close>.
\<close>

definition reconcilier ::
  "string \<Rightarrow> string \<times> string \<times> string \<times> string
     \<Rightarrow> string \<times> string \<times> string \<times> string \<times> string" where
  "reconcilier iban_trouve libelles =
     (case derives_iban iban_trouve of (cb0, cg0, nc0, cle0) \<Rightarrow>
      case libelles of (lb_cb, lb_cg, lb_nc, lb_cle) \<Rightarrow>
        let cb = ou cb0 lb_cb; cg = ou cg0 lb_cg; nc = ou nc0 lb_nc; cle1 = ou cle0 lb_cle;
            cle = (if cle1 = [] \<and> cb \<noteq> [] \<and> cg \<noteq> [] \<and> nc \<noteq> []
                   then calculer_cle_rib cb cg nc else cle1);
            iban = (if iban_trouve = [] \<and> cb \<noteq> [] \<and> cg \<noteq> [] \<and> nc \<noteq> [] \<and> cle \<noteq> []
                    then construire_iban_fr cb cg nc cle else iban_trouve)
        in (cb, cg, nc, cle, iban))"

text \<open>The column \<open>BIC / SWIFT\<close> of the rows of the two programs of the OCR path.\<close>

definition bic_app_with_ocr :: "bic_lib \<Rightarrow> string \<Rightarrow> string" where
  "bic_app_with_ocr lib tclean = nz_app (extraire_bic_valide_utils lib tclean)"

definition bic_rib_extractor :: "bic_lib \<Rightarrow> string \<Rightarrow> string" where
  "bic_rib_extractor lib tclean = nz_rib (extraire_bic_valide_rib_extractor lib tclean)"


section \<open>Spans between braces\<close>





section \<open>Decimal numerals\<close>

lemma digit_nth_cases:
  assumes "k < 10"
  shows "k = 0 \<or> k = 1 \<or> k = 2 \<or> k = 3 \<or> k = 4 \<or> k = 5 \<or> k = 6 \<or> k = 7 \<or> k = 8 \<or> k = (9::nat)"
  using assms by arith

lemma digit_nth_ascii: "k < 10 \<Longrightarrow> ascii_digit (digit_ch k)"
  using digit_nth_cases [of k] by (auto simp: ascii_digit_def ord_def digit_ch_def)

lemma digit_nth_val: "k < 10 \<Longrightarrow> digit_val (digit_ch k) = int k"
  using digit_nth_cases [of k] by (auto simp: digit_val_def ord_def digit_ch_def)

lemma str_nat_one: "n < 10 \<Longrightarrow> str_nat n = [digit_ch n]"
  by (subst str_nat.simps) simp

lemma str_nat_two:
  assumes "10 \<le> n" "n < 100"
  shows "str_nat n = [digit_ch (n div 10), digit_ch (n mod 10)]"
proof -
  have "n div 10 < 10" using assms by simp
  then have "str_nat (n div 10) = [digit_ch (n div 10)]" by (rule str_nat_one)
  moreover have "\<not> n < 10" using assms by simp
  ultimately show ?thesis by (subst str_nat.simps) simp
qed

lemma fmt_02d_small:
  assumes "0 \<le> n" "n < 10"
  shows "fmt_02d n = [CHR ''0'', digit_ch (nat n)]"
  using assms by (simp add: fmt_02d_def str_nat_one)

lemma fmt_02d_two:
  assumes "10 \<le> n" "n < 100"
  shows "fmt_02d n = [digit_ch (nat n div 10), digit_ch (nat n mod 10)]"
proof -
  have "10 \<le> nat n" "nat n < 100" using assms by simp_all
  then show ?thesis using assms by (simp add: fmt_02d_def str_nat_two)
qed

lemma fmt_02d_length: "0 \<le> n \<Longrightarrow> n < 100 \<Longrightarrow> length (fmt_02d n) = 2"
  by (cases "n < 10") (simp_all add: fmt_02d_small fmt_02d_two)

lemma fmt_02d_digits: "0 \<le> n \<Longrightarrow> n < 100 \<Longrightarrow> list_all ascii_digit (fmt_02d n)"
proof (cases "n < 10")
  case True
  assume "0 \<le> n"
  with True show ?thesis
    by (simp add: fmt_02d_small digit_nth_ascii) (simp add: ascii_digit_def ord_def)
next
  case False
  assume "n < 100"
  with False have "nat n div 10 < 10" "nat n mod 10 < 10" by simp_all
  with False \<open>n < 100\<close> show ?thesis by (simp add: fmt_02d_two digit_nth_ascii)
qed

lemma fmt_02d_value:
  assumes "0 \<le> n" "n < 100"
  shows "int_of_digits (fmt_02d n) = Some n"
proof (cases "n < 10")
  case True
  with assms have "digit_val (digit_ch (nat n)) = n"
    by (simp add: digit_nth_val)
  moreover have "ascii_digit (CHR ''0'')" "digit_val (CHR ''0'') = 0"
    by (simp_all add: ascii_digit_def digit_val_def ord_def)
  ultimately show ?thesis using True assms
    by (simp add: fmt_02d_small int_of_digits_def num_of_digits_def digit_nth_ascii
        int_max_str_digits_def)
next
  case False
  with assms have b: "nat n div 10 < 10" "nat n mod 10 < 10" by simp_all
  have "10 * int (nat n div 10) + int (nat n mod 10) = n"
    using assms by (simp add: zdiv_int zmod_int)
  with False assms b show ?thesis
    by (simp add: fmt_02d_two int_of_digits_def num_of_digits_def digit_nth_ascii digit_nth_val
        int_max_str_digits_def)
qed

section \<open>The RIB key is two digits between 01 and 97\<close>

text \<open>
  C10. Whenever \<open>calculer_cle_rib\<close> returns a non-empty key, the key has exactly two
  characters, reads as an integer between 1 and 97, and is never \<open>00\<close>.
\<close>

theorem calculer_cle_rib_range:
  assumes "calculer_cle_rib cb cg nc \<noteq> ''''"
  shows "length (calculer_cle_rib cb cg nc) = 2
     \<and> (\<exists>k. int_of_digits (calculer_cle_rib cb cg nc) = Some k \<and> 1 \<le> k \<and> k \<le> 97)
     \<and> calculer_cle_rib cb cg nc \<noteq> ''00''"
proof -
  from assms obtain n where n: "calculer_cle_rib cb cg nc = fmt_02d (97 - n mod 97)"
    by (auto simp: calculer_cle_rib_def Let_def split: if_splits option.splits)
  define k where "k = 97 - n mod 97"
  have k: "1 \<le> k" "k \<le> 97" "0 \<le> k" "k < 100"
    unfolding k_def using pos_mod_bound [of 97 n] pos_mod_sign [of 97 n] by simp_all
  have v: "int_of_digits (fmt_02d k) = Some k"
    using k by (simp add: fmt_02d_value)
  have "int_of_digits ''00'' = Some 0"
    by (simp add: int_of_digits_def num_of_digits_def ascii_digit_def digit_val_def ord_def
        int_max_str_digits_def)
  with v k have "fmt_02d k \<noteq> ''00''" by auto
  with v k show ?thesis
    unfolding n k_def [symmetric] by (simp add: fmt_02d_length)
qed

theorem calculer_cle_rib_range_witness:
  "calculer_cle_rib ''30006'' ''00001'' ''1234567890a'' \<noteq> ''''
     \<and> length (calculer_cle_rib ''30006'' ''00001'' ''1234567890a'') = 2
     \<and> (\<exists>k. int_of_digits (calculer_cle_rib ''30006'' ''00001'' ''1234567890a'') = Some k
            \<and> 1 \<le> k \<and> k \<le> 97)
     \<and> calculer_cle_rib ''30006'' ''00001'' ''1234567890a'' \<noteq> ''00''"
proof -
  have h: "calculer_cle_rib ''30006'' ''00001'' ''1234567890a'' \<noteq> ''''"
    by code_simp
  show ?thesis
    using h calculer_cle_rib_range [OF h] by simp
qed

section \<open>Characters\<close>

lemma ord_chr: "n < 256 \<Longrightarrow> ord (chr n) = n"
  by (simp add: ord_def chr_def)

lemma ord_lt: "ord c < 256"
  by (simp add: ord_def)

lemma ord_inj: "(ord c = ord d) = (c = d)"
  by (auto simp: ord_def)

lemma sep_ord:
  "iban_separator c \<longleftrightarrow> ord c = 32 \<or> ord c = 45 \<or> ord c = 46
     \<or> ord c = 160 \<or> ord c = 175 \<or> ord c = 183"
proof -
  have "ord (CHR '' '') = 32" "ord (CHR ''-'') = 45" "ord (CHR ''.'') = 46"
    by (simp_all add: ord_def)
  then have "c \<in> set '' -.'' \<longleftrightarrow> ord c = 32 \<or> ord c = 45 \<or> ord c = 46"
    by (metis ord_inj insert_iff list.simps(15) empty_iff empty_set)
  then show ?thesis
    unfolding iban_separator_def by blast
qed

lemma upper_ch_fixed: "c' \<in> set (upper_ch c) \<Longrightarrow> upper_ch c' = [c']"
proof -
  have "ord (CHR ''S'') = 83" by (simp add: ord_def)
  then show "c' \<in> set (upper_ch c) \<Longrightarrow> upper_ch c' = [c']"
    using ord_lt [of c]
    by (auto simp: upper_ch_def ascii_lower_def ord_chr split: if_splits)
qed

lemma upper_ch_nonempty: "upper_ch c \<noteq> []"
  by (simp add: upper_ch_def)

lemma upper_ch_sep: "\<not> iban_separator c \<Longrightarrow> c' \<in> set (upper_ch c) \<Longrightarrow> \<not> iban_separator c'"
proof -
  have "ord (CHR ''S'') = 83" by (simp add: ord_def)
  then show "\<not> iban_separator c \<Longrightarrow> c' \<in> set (upper_ch c) \<Longrightarrow> \<not> iban_separator c'"
    unfolding sep_ord using ord_lt [of c]
    by (auto simp: upper_ch_def ascii_lower_def ord_chr split: if_splits)
qed

lemma upper_ch_space: "\<not> isspace_ch c \<Longrightarrow> c' \<in> set (upper_ch c) \<Longrightarrow> \<not> isspace_ch c'"
proof -
  have "ord (CHR ''S'') = 83" by (simp add: ord_def)
  then show "\<not> isspace_ch c \<Longrightarrow> c' \<in> set (upper_ch c) \<Longrightarrow> \<not> isspace_ch c'"
    using ord_lt [of c]
    by (auto simp: upper_ch_def ascii_lower_def isspace_ch_def ord_chr split: if_splits)
qed

lemma upper_ch_keep: "ascii_upper c \<or> ascii_digit c \<Longrightarrow> upper_ch c = [c]"
  by (auto simp: upper_ch_def ascii_lower_def ascii_upper_def ascii_digit_def)

lemma upper_ch_alnum:
  assumes "ascii_alnum c"
  shows "\<exists>c'. upper_ch c = [c'] \<and> (ascii_upper c' \<or> ascii_digit c') \<and> b36_digits c' = b36_digits c"
  using assms ord_lt [of c]
  by (auto simp: upper_ch_def ascii_alnum_def ascii_lower_def ascii_upper_def ascii_digit_def
      b36_digits_def ord_chr)

lemma alnum_not_sep: "ascii_alnum c \<Longrightarrow> \<not> iban_separator c"
  unfolding sep_ord by (auto simp: ascii_alnum_def ascii_lower_def ascii_upper_def ascii_digit_def)

lemma alnum_not_space: "ascii_alnum c \<Longrightarrow> \<not> isspace_ch c"
  by (auto simp: ascii_alnum_def ascii_lower_def ascii_upper_def ascii_digit_def isspace_ch_def)

section \<open>Upper case and compaction\<close>

lemma upper_append: "upper (a @ b) = upper a @ upper b"
  by (simp add: upper_def)

lemma upper_fixed_id: "\<forall>c \<in> set s. upper_ch c = [c] \<Longrightarrow> upper s = s"
  by (induction s) (simp_all add: upper_def)

lemma upper_set_fixed: "c' \<in> set (upper s) \<Longrightarrow> upper_ch c' = [c']"
  by (auto simp: upper_def dest: upper_ch_fixed)

lemma upper_idem: "upper (upper s) = upper s"
  by (rule upper_fixed_id) (auto dest: upper_set_fixed)

lemma upper_keep: "list_all (\<lambda>c. ascii_upper c \<or> ascii_digit c) s \<Longrightarrow> upper s = s"
  by (rule upper_fixed_id) (auto simp: list_all_iff upper_ch_keep)

lemma upper_digits: "list_all ascii_digit s \<Longrightarrow> upper s = s"
  by (rule upper_fixed_id) (auto simp: list_all_iff upper_ch_keep)

lemma upper_alnum:
  "list_all ascii_alnum s \<Longrightarrow>
     length (upper s) = length s \<and> list_all ascii_alnum (upper s)
     \<and> concat (map b36_digits (upper s)) = concat (map b36_digits s)"
proof (induction s)
  case Nil
  then show ?case by (simp add: upper_def)
next
  case (Cons c s)
  then obtain c' where c': "upper_ch c = [c']" "ascii_upper c' \<or> ascii_digit c'"
      "b36_digits c' = b36_digits c"
    using upper_ch_alnum [of c] by auto
  have "upper (c # s) = c' # upper s" using c' by (simp add: upper_def)
  with Cons c' show ?case by (auto simp: ascii_alnum_def)
qed

lemma take_upper: "list_all ascii_alnum s \<Longrightarrow> take n (upper s) = upper (take n s)"
proof (induction s arbitrary: n)
  case Nil
  then show ?case by (simp add: upper_def)
next
  case (Cons c s)
  then obtain c' where c': "upper_ch c = [c']" using upper_ch_alnum [of c] by auto
  have "upper (c # s) = c' # upper s" using c' by (simp add: upper_def)
  with Cons c' show ?case by (cases n) (simp_all add: upper_def)
qed

lemma drop_upper: "list_all ascii_alnum s \<Longrightarrow> drop n (upper s) = upper (drop n s)"
proof (induction s arbitrary: n)
  case Nil
  then show ?case by (simp add: upper_def)
next
  case (Cons c s)
  then obtain c' where c': "upper_ch c = [c']" using upper_ch_alnum [of c] by auto
  have "upper (c # s) = c' # upper s" using c' by (simp add: upper_def)
  with Cons c' show ?case by (cases n) (simp_all add: upper_def)
qed

lemma strip_id:
  assumes "w = [] \<or> (\<not> isspace_ch (hd w) \<and> \<not> isspace_ch (last w))"
  shows "strip w = w"
proof (cases "w = []")
  case True
  then show ?thesis by (simp add: strip_def)
next
  case False
  with assms have h: "\<not> isspace_ch (hd w)" and l: "\<not> isspace_ch (last w)" by auto
  from False h have "dropWhile isspace_ch w = w" by (cases w) auto
  moreover from False l have "dropWhile isspace_ch (rev w) = rev w"
    by (cases "rev w") (auto simp: last_rev [symmetric] simp del: last_rev)
  ultimately show ?thesis by (simp add: strip_def)
qed

lemma strip_ends:
  "strip v = [] \<or> (\<not> isspace_ch (hd (strip v)) \<and> \<not> isspace_ch (last (strip v)))"
proof (cases "strip v = []")
  case True
  then show ?thesis by simp
next
  case False
  define w where "w = dropWhile isspace_ch v"
  define z where "z = dropWhile isspace_ch (rev w)"
  have sv: "strip v = rev z" by (simp add: strip_def w_def z_def)
  with False have z: "z \<noteq> []" by simp
  then have "\<not> isspace_ch (hd z)" unfolding z_def by (rule hd_dropWhile)
  then have l: "\<not> isspace_ch (last (strip v))" using z sv by (simp add: last_rev)
  obtain pre where pre: "rev w = pre @ z"
    unfolding z_def by (metis takeWhile_dropWhile_id)
  then have "w = rev z @ rev pre" by (metis rev_append rev_rev_ident)
  then have hw: "hd w = hd (rev z)" using z by simp
  have "w \<noteq> []" using pre z by auto
  then have "\<not> isspace_ch (hd w)" unfolding w_def by (rule hd_dropWhile)
  with hw sv l show ?thesis by simp
qed

lemma set_strip: "set (strip v) \<subseteq> set v"
proof -
  have "set (strip v) \<subseteq> set (dropWhile isspace_ch v)"
    unfolding strip_def using set_dropWhileD by fastforce
  then show ?thesis using set_dropWhileD by fastforce
qed

lemma hd_upper: "u \<noteq> [] \<Longrightarrow> hd (upper u) \<in> set (upper_ch (hd u))"
  by (cases u) (simp_all add: upper_def upper_ch_nonempty)

lemma last_upper: "u \<noteq> [] \<Longrightarrow> last (upper u) \<in> set (upper_ch (last u))"
proof (induction u rule: rev_induct)
  case Nil
  then show ?case by simp
next
  case (snoc c u)
  then show ?case by (simp add: upper_def upper_ch_nonempty)
qed

lemma upper_empty: "upper u = [] \<longleftrightarrow> u = []"
  by (cases u) (simp_all add: upper_def upper_ch_nonempty)

lemma iban_compact_fixed:
  assumes "\<forall>c \<in> set s. upper_ch c = [c] \<and> \<not> iban_separator c"
    and "s = [] \<or> (\<not> isspace_ch (hd s) \<and> \<not> isspace_ch (last s))"
  shows "iban_compact s = s"
proof -
  have "filter (\<lambda>c. \<not> iban_separator c) s = s" using assms(1) by (simp add: filter_id_conv)
  moreover have "strip s = s" using assms(2) by (rule strip_id)
  moreover have "upper s = s" using assms(1) by (simp add: upper_fixed_id)
  ultimately show ?thesis by (simp add: iban_compact_def)
qed

lemma iban_compact_idem: "iban_compact (iban_compact s) = iban_compact s"
proof -
  define u where "u = strip (filter (\<lambda>c. \<not> iban_separator c) s)"
  have n: "iban_compact s = upper u" by (simp add: iban_compact_def u_def)
  have usep: "\<forall>c \<in> set u. \<not> iban_separator c"
    unfolding u_def using set_strip by fastforce
  have a: "\<forall>c \<in> set (upper u). upper_ch c = [c] \<and> \<not> iban_separator c"
  proof
    fix c assume c: "c \<in> set (upper u)"
    then obtain c0 where "c0 \<in> set u" "c \<in> set (upper_ch c0)" by (auto simp: upper_def)
    with usep have "\<not> iban_separator c" using upper_ch_sep by blast
    with c show "upper_ch c = [c] \<and> \<not> iban_separator c" using upper_set_fixed by blast
  qed
  have b: "upper u = [] \<or> (\<not> isspace_ch (hd (upper u)) \<and> \<not> isspace_ch (last (upper u)))"
  proof (cases "u = []")
    case True
    then show ?thesis by (simp add: upper_def)
  next
    case False
    with strip_ends [of "filter (\<lambda>c. \<not> iban_separator c) s"]
    have "\<not> isspace_ch (hd u)" "\<not> isspace_ch (last u)" by (simp_all add: u_def)
    with False show ?thesis
      using hd_upper [of u] last_upper [of u] upper_ch_space by blast
  qed
  show ?thesis unfolding n using a b by (rule iban_compact_fixed)
qed

lemma iban_compact_alnum: "list_all ascii_alnum s \<Longrightarrow> iban_compact s = upper s"
proof -
  assume a: "list_all ascii_alnum s"
  then have "filter (\<lambda>c. \<not> iban_separator c) s = s"
    by (auto simp: filter_id_conv list_all_iff dest: alnum_not_sep)
  moreover have "strip s = s"
  proof (rule strip_id, cases "s = []")
    case False
    then have "hd s \<in> set s" "last s \<in> set s" by simp_all
    with a show "s = [] \<or> (\<not> isspace_ch (hd s) \<and> \<not> isspace_ch (last s))"
      by (auto simp: list_all_iff dest: alnum_not_space)
  qed simp
  ultimately show ?thesis by (simp add: iban_compact_def)
qed

lemma filter_group4: "filter (\<lambda>c. \<not> iban_separator c) (group4 s) = filter (\<lambda>c. \<not> iban_separator c) s"
  by (induction s rule: group4.induct) (simp_all add: iban_separator_def)

lemma iban_compact_group4: "iban_compact (group4 s) = iban_compact s"
  by (simp only: iban_compact_def filter_group4)

lemma group4_empty: "group4 s = [] \<longleftrightarrow> s = []"
  by (induction s rule: group4.induct) simp_all

section \<open>Validity and formatting\<close>

lemma iban_is_valid_compact: "iban_is_valid (iban_compact x) = iban_is_valid x"
  by (simp add: iban_is_valid_def iban_compact_idem)

lemma iban_is_valid_group4: "iban_is_valid (group4 x) = iban_is_valid x"
  by (simp add: iban_is_valid_def iban_compact_group4)

lemma space_not_alnum: "\<not> ascii_alnum (CHR '' '')"
  by (simp add: ascii_alnum_def ascii_upper_def ascii_lower_def ascii_digit_def ord_def)

lemma filter_alnum_group4: "filter ascii_alnum (group4 s) = filter ascii_alnum s"
  by (induction s rule: group4.induct) (simp_all add: space_not_alnum)

section \<open>The key of a well-formed RIB\<close>

lemma lettre_vers_nombre_alnum:
  assumes "ascii_upper c \<or> ascii_digit c"
  shows "list_all ascii_digit (lettre_vers_nombre c) \<and> length (lettre_vers_nombre c) \<le> 2"
proof (cases "ascii_digit c")
  case True
  then show ?thesis by (simp add: lettre_vers_nombre_def isdigit_ch_def)
next
  case False
  with assms have u: "ascii_upper c" by simp
  then have nd: "\<not> isdigit_ch c"
    by (auto simp: isdigit_ch_def ascii_upper_def ascii_digit_def)
  define k where "k = 10 + ord c - ord (CHR ''A'')"
  have "ord (CHR ''A'') = 65" by (simp add: ord_def)
  with u have k: "10 \<le> k" "k < 100" by (auto simp: k_def ascii_upper_def)
  then have "k div 10 < 10" "k mod 10 < 10" by simp_all
  then have "list_all ascii_digit (str_nat k) \<and> length (str_nat k) \<le> 2"
    using k by (simp add: str_nat_two digit_nth_ascii)
  with u nd show ?thesis by (simp add: lettre_vers_nombre_def k_def)
qed

lemma lettres_vers_nombres_alnum:
  assumes "list_all ascii_alnum s"
  shows "list_all ascii_digit (lettres_vers_nombres s)
     \<and> length (lettres_vers_nombres s) \<le> 2 * length s"
  using assms
proof (induction s)
  case Nil
  then show ?case by (simp add: lettres_vers_nombres_def upper_def)
next
  case (Cons c s)
  then obtain c' where c': "upper_ch c = [c']" "ascii_upper c' \<or> ascii_digit c'"
    using upper_ch_alnum [of c] by auto
  have e: "lettres_vers_nombres (c # s) = lettre_vers_nombre c' @ lettres_vers_nombres s"
    using c' by (simp add: lettres_vers_nombres_def upper_def)
  from Cons lettre_vers_nombre_alnum [OF c'(2)] show ?case
    unfolding e by auto
qed

lemma calculer_cle_rib_defined:
  assumes "cb \<noteq> []" "list_all ascii_digit cb" "cg \<noteq> []" "list_all ascii_digit cg"
    and "nc \<noteq> []" "list_all ascii_alnum nc" "length cb + length cg + 2 * length nc \<le> 4300"
  shows "length (calculer_cle_rib cb cg nc) = 2 \<and> list_all ascii_digit (calculer_cle_rib cb cg nc)"
proof -
  define base where "base = cb @ cg @ lettres_vers_nombres nc"
  have l: "list_all ascii_digit (lettres_vers_nombres nc)"
      "length (lettres_vers_nombres nc) \<le> 2 * length nc"
    using lettres_vers_nombres_alnum [OF assms(6)] by simp_all
  have bd: "list_all ascii_digit base" "base \<noteq> []" "length base \<le> 4300"
    using assms l by (simp_all add: base_def)
  then have "isdigit base" by (auto simp: isdigit_def isdigit_ch_def list_all_iff)
  moreover have "int_of_digits base = Some (num_of_digits base)"
    using bd by (simp add: int_of_digits_def int_max_str_digits_def)
  ultimately have e: "calculer_cle_rib cb cg nc = fmt_02d (97 - num_of_digits base mod 97)"
    using assms(1,3,5) by (simp add: calculer_cle_rib_def base_def [symmetric])
  have "0 \<le> 97 - num_of_digits base mod 97" "97 - num_of_digits base mod 97 < 100"
    using pos_mod_bound [of 97 "num_of_digits base"] pos_mod_sign [of 97 "num_of_digits base"]
    by simp_all
  then show ?thesis unfolding e by (simp add: fmt_02d_length fmt_02d_digits)
qed

section \<open>Building an IBAN from a RIB\<close>

text \<open>
  Whatever the four components are, \<open>construire_iban_fr\<close> returns the empty string:
  either a component is empty, or the call of \<open>from_bban\<close> raises and the exception is
  swallowed.
\<close>

lemma construire_iban_fr_empty: "construire_iban_fr cb cg nc cle = ''''"
  by (simp add: construire_iban_fr_def iban_from_bban_def)

text \<open>
  C1. The claim asks that, for a bank code and a branch code of five digits each and an
  account number of eleven letters or digits, \<open>construire_iban_fr\<close> on the three
  components and the key of \<open>calculer_cle_rib\<close> returns an IBAN that passes the
  checksum modulo 97. The code does not: for the bank code 30006, the branch code 00001
  and the account number 12345678901 the key is 62, and \<open>construire_iban_fr\<close> on these
  four returns the empty string, the absent marker, which is not a valid IBAN and does not
  pass the checksum.
\<close>

theorem construire_iban_fr_absent:
  "calculer_cle_rib ''30006'' ''00001'' ''12345678901'' = ''62''
   \<and> construire_iban_fr ''30006'' ''00001'' ''12345678901''
        (calculer_cle_rib ''30006'' ''00001'' ''12345678901'') = ''''
   \<and> \<not> iban_is_valid (construire_iban_fr ''30006'' ''00001'' ''12345678901''
        (calculer_cle_rib ''30006'' ''00001'' ''12345678901''))
   \<and> \<not> mod97_ok (compacter (construire_iban_fr ''30006'' ''00001'' ''12345678901''
        (calculer_cle_rib ''30006'' ''00001'' ''12345678901'')))"
proof -
  have k: "calculer_cle_rib ''30006'' ''00001'' ''12345678901'' = ''62''"
    by code_simp
  have v: "\<not> iban_is_valid ''''" "\<not> mod97_ok (compacter '''')"
    by code_simp+
  show ?thesis
    using k v by (simp only: construire_iban_fr_empty simp_thms)
qed

text \<open>
  C2. The claim asks that decomposing a valid French IBAN, rebuilding an IBAN from the
  four components and decomposing the result gives the four components again. The code
  does not: the valid IBAN FR76 3000 6000 0112 3456 7890 189 decomposes into 30006, 00001,
  12345678901 and 89; \<open>construire_iban_fr\<close> on these four returns the empty string, and
  the decomposition of the empty string is four empty strings.
\<close>

theorem decomposer_round_trip_broken:
  "iban_is_valid ''FR76 3000 6000 0112 3456 7890 189''
   \<and> decomposer_iban_fr ''FR76 3000 6000 0112 3456 7890 189''
       = (''30006'', ''00001'', ''12345678901'', ''89'')
   \<and> construire_iban_fr ''30006'' ''00001'' ''12345678901'' ''89'' = ''''
   \<and> decomposer_iban_fr (construire_iban_fr ''30006'' ''00001'' ''12345678901'' ''89'')
       = ('''', '''', '''', '''')
   \<and> decomposer_iban_fr (construire_iban_fr ''30006'' ''00001'' ''12345678901'' ''89'')
       \<noteq> decomposer_iban_fr ''FR76 3000 6000 0112 3456 7890 189''"
proof -
  have v: "iban_is_valid ''FR76 3000 6000 0112 3456 7890 189''"
    by code_simp
  have d: "decomposer_iban_fr ''FR76 3000 6000 0112 3456 7890 189''
       = (''30006'', ''00001'', ''12345678901'', ''89'')"
    by code_simp
  have e: "decomposer_iban_fr '''' = ('''', '''', '''', '''')"
    by (simp add: decomposer_iban_fr_def)
  show ?thesis
    unfolding construire_iban_fr_empty e d using v by simp
qed

section \<open>The validation of a BIC\<close>

lemma isalpha_take6:
  assumes "isalpha (take 4 b)" "isalpha (take 2 (drop 4 b))"
  shows "list_all isalpha_ch (take 6 b)"
proof -
  have "take 6 b = take 4 b @ take 2 (drop 4 b)"
    using take_add [of 4 2 b] by simp
  with assms show ?thesis by (simp add: isalpha_def)
qed

lemma boulogne_normalise: "filter ascii_alnum (upper ''BOULOGNE'') = ''BOULOGNE''"
  by code_simp

lemma valider_boulogne: "valider_normaliser_bic lib ''BOULOGNE'' = ''''"
  by (simp add: valider_normaliser_bic_def boulogne_normalise Let_def)

text \<open>
  C6, the claim as written, fails: a name of eight letters whose fifth and sixth letters
  are \<open>FR\<close> is accepted when no validator is installed. Montfrin is a commune of the Gard.
\<close>

theorem valider_normaliser_bic_city_counterexample:
  "length ''MONTFRIN'' = 8 \<and> list_all isalpha_ch ''MONTFRIN''
     \<and> valider_normaliser_bic None ''MONTFRIN'' = ''MONTFRIN''"
  by code_simp

text \<open>
  C6, amended. \<open>valider_normaliser_bic\<close> returns a non-empty value only if the candidate,
  put in upper case and stripped of what is not a letter or a digit, has 8 or 11
  characters, its first six are letters and its fifth and sixth are \<open>FR\<close>; the value is
  then that candidate. So every candidate whose fifth and sixth characters are not \<open>FR\<close>
  is rejected, \<open>BOULOGNE\<close> among them.
\<close>

theorem valider_normaliser_bic_shape:
  "(valider_normaliser_bic lib raw \<noteq> '''' \<longrightarrow>
      valider_normaliser_bic lib raw = filter ascii_alnum (upper raw)
      \<and> (length (filter ascii_alnum (upper raw)) = 8
           \<or> length (filter ascii_alnum (upper raw)) = 11)
      \<and> list_all isalpha_ch (take 6 (filter ascii_alnum (upper raw)))
      \<and> take 2 (drop 4 (filter ascii_alnum (upper raw))) = ''FR'')
   \<and> (take 2 (drop 4 (filter ascii_alnum (upper raw))) \<noteq> ''FR'' \<longrightarrow>
        valider_normaliser_bic lib raw = '''')
   \<and> valider_normaliser_bic lib ''BOULOGNE'' = ''''"
proof (intro conjI impI)
  assume a: "valider_normaliser_bic lib raw \<noteq> ''''"
  define b where "b = filter ascii_alnum (upper raw)"
  from a have c: "length b = 8 \<or> length b = 11" "isalpha (take 4 b)"
      "isalpha (take 2 (drop 4 b))" "take 2 (drop 4 b) = ''FR''"
    unfolding valider_normaliser_bic_def b_def [symmetric] Let_def
    by (auto split: if_splits)
  from a have v: "valider_normaliser_bic lib raw = b"
    unfolding valider_normaliser_bic_def b_def [symmetric] Let_def
    by (auto split: if_splits option.splits bool.splits)
  show "valider_normaliser_bic lib raw = filter ascii_alnum (upper raw)"
    using v by (simp add: b_def)
  show "length (filter ascii_alnum (upper raw)) = 8 \<or> length (filter ascii_alnum (upper raw)) = 11"
    using c(1) by (simp add: b_def)
  show "list_all isalpha_ch (take 6 (filter ascii_alnum (upper raw)))"
    using isalpha_take6 [OF c(2,3)] by (simp add: b_def)
  show "take 2 (drop 4 (filter ascii_alnum (upper raw))) = ''FR''"
    using c(4) by (simp add: b_def)
next
  assume "take 2 (drop 4 (filter ascii_alnum (upper raw))) \<noteq> ''FR''"
  then show "valider_normaliser_bic lib raw = ''''"
    by (simp add: valider_normaliser_bic_def Let_def)
next
  show "valider_normaliser_bic lib ''BOULOGNE'' = ''''" by (rule valider_boulogne)
qed

theorem valider_normaliser_bic_shape_witness:
  "valider_normaliser_bic None ''bnpa-fr pp'' \<noteq> ''''
     \<and> valider_normaliser_bic None ''bnpa-fr pp'' = filter ascii_alnum (upper ''bnpa-fr pp'')
     \<and> take 2 (drop 4 (filter ascii_alnum (upper ''bnpa-fr pp''))) = ''FR''
     \<and> take 2 (drop 4 (filter ascii_alnum (upper ''DEUTDEFF''))) \<noteq> ''FR''
     \<and> valider_normaliser_bic None ''DEUTDEFF'' = ''''"
proof -
  have h1: "valider_normaliser_bic None ''bnpa-fr pp'' \<noteq> ''''"
    by code_simp
  have h2: "take 2 (drop 4 (filter ascii_alnum (upper ''DEUTDEFF''))) \<noteq> ''FR''"
    by code_simp
  show ?thesis
    using h1 h2 valider_normaliser_bic_shape [of None "''bnpa-fr pp''"]
      valider_normaliser_bic_shape [of None "''DEUTDEFF''"]
    by blast
qed

section \<open>The error responses of the vision model\<close>

text \<open>
  C3. \<open>analyser_rib\<close> returns \<open>__ERROR_EXCEPTION__\<close> followed by the message when the
  call fails. The loop tests the prefix \<open>__ERROR__\<close>, which that response does not have:
  the row does not carry the response in its error column, whatever \<open>json.loads\<close> does.
\<close>

theorem traiter_reponse_sentinel:
  "startswith ''__ERROR_EXCEPTION__ timeout'' ''__ERROR_EXCEPTION__''
     \<and> col_erreur (traiter_reponse json_loads nom ''__ERROR_EXCEPTION__ timeout'')
         \<noteq> ''__ERROR_EXCEPTION__ timeout''"
  by (simp add: traiter_reponse_def startswith_def ligne_vide_def split: option.splits)

section \<open>The two extractors of the BIC\<close>

lemma valider_boulogne2: "valider_normaliser_bic lib ''BOULOGNE'' = ''''"
proof -
  have "filter ascii_alnum (upper ''BOULOGNE'') = ''BOULOGNE''" by code_simp
  then show ?thesis by (simp add: valider_normaliser_bic_def Let_def)
qed

lemma boulogne_lines:
  "splitlines ''BOULOGNE'' = [''BOULOGNE'']"
  "split_nl ''BOULOGNE'' = [''BOULOGNE'']"
  by code_simp+

lemma boulogne_no_label:
  "search PAT_BIC_utils ''BOULOGNE'' = None"
  "search PAT_BIC_rib_extractor ''BOULOGNE'' = None"
  by code_simp+

lemma boulogne_candidates:
  "findall PAT_BIC_CODE (filter upper_or_digit (upper ''BOULOGNE'')) = [''BOULOGNE'']"
  "findall PAT_BIC_CODE (upper ''BOULOGNE'') = [''BOULOGNE'']"
  by code_simp+

text \<open>
  C9. On the text \<open>BOULOGNE\<close> the extractor of utils.py finds no BIC and the one of
  rib\_extractor.py returns \<open>BOULOGNE\<close>, with or without a validator.
\<close>

theorem extraire_bic_valide_differ:
  "extraire_bic_valide_utils lib ''BOULOGNE'' = ''''
     \<and> extraire_bic_valide_rib_extractor lib ''BOULOGNE'' = ''BOULOGNE''"
  by (simp add: extraire_bic_valide_utils_def extraire_bic_valide_rib_extractor_def
      boulogne_lines boulogne_no_label
      boulogne_candidates valider_boulogne2)

section \<open>The precedence of the values derived from the IBAN\<close>

text \<open>
  C7. For each of the bank code, the branch code, the account number and the key, the
  reconciled value is the one derived from the IBAN whenever that one is not empty,
  whatever the labels gave; the value of the label is used only when the value derived
  from the IBAN is empty.
\<close>

theorem reconcilier_precedence:
  "(case reconcilier i (lb_cb, lb_cg, lb_nc, lb_cle) of (cb, cg, nc, cle, iban) \<Rightarrow>
    case derives_iban i of (d_cb, d_cg, d_nc, d_cle) \<Rightarrow>
      (d_cb \<noteq> [] \<longrightarrow> cb = d_cb) \<and> (d_cb = [] \<longrightarrow> cb = lb_cb)
      \<and> (d_cg \<noteq> [] \<longrightarrow> cg = d_cg) \<and> (d_cg = [] \<longrightarrow> cg = lb_cg)
      \<and> (d_nc \<noteq> [] \<longrightarrow> nc = d_nc) \<and> (d_nc = [] \<longrightarrow> nc = lb_nc)
      \<and> (d_cle \<noteq> [] \<longrightarrow> cle = d_cle) \<and> (d_cle = [] \<and> lb_cle \<noteq> [] \<longrightarrow> cle = lb_cle))"
proof -
  obtain d_cb d_cg d_nc d_cle where d: "derives_iban i = (d_cb, d_cg, d_nc, d_cle)"
    by (cases "derives_iban i") auto
  show ?thesis
    unfolding reconcilier_def d by (simp add: ou_def Let_def)
qed

theorem reconcilier_precedence_witness:
  "derives_iban ''FR76 3000 6000 0112 3456 7890 189''
     = (''30006'', ''00001'', ''12345678901'', ''89'')
   \<and> (case reconcilier ''FR76 3000 6000 0112 3456 7890 189''
              (''11111'', ''22222'', ''X3333333333'', ''44'') of
        (cb, cg, nc, cle, iban) \<Rightarrow>
          cb = ''30006'' \<and> cg = ''00001'' \<and> nc = ''12345678901'' \<and> cle = ''89'')
   \<and> derives_iban '''' = ('''', '''', '''', '''')
   \<and> (case reconcilier '''' (''11111'', ''22222'', ''X3333333333'', ''44'') of
        (cb, cg, nc, cle, iban) \<Rightarrow>
          cb = ''11111'' \<and> cg = ''22222'' \<and> nc = ''X3333333333'' \<and> cle = ''44'')"
proof -
  have h1: "derives_iban ''FR76 3000 6000 0112 3456 7890 189''
     = (''30006'', ''00001'', ''12345678901'', ''89'')"
    by code_simp
  have h2: "derives_iban '''' = ('''', '''', '''', '''')"
    by (simp add: derives_iban_def)
  obtain cb cg nc cle ib where r1: "reconcilier ''FR76 3000 6000 0112 3456 7890 189''
      (''11111'', ''22222'', ''X3333333333'', ''44'') = (cb, cg, nc, cle, ib)"
    using prod_cases5 by blast
  obtain cb' cg' nc' cle' ib' where r2: "reconcilier ''''
      (''11111'', ''22222'', ''X3333333333'', ''44'') = (cb', cg', nc', cle', ib')"
    using prod_cases5 by blast
  have a: "cb = ''30006'' \<and> cg = ''00001'' \<and> nc = ''12345678901'' \<and> cle = ''89''"
    using reconcilier_precedence [where i = "''FR76 3000 6000 0112 3456 7890 189''"
        and lb_cb = "''11111''" and lb_cg = "''22222''" and lb_nc = "''X3333333333''"
        and lb_cle = "''44''"]
    unfolding r1 h1 by simp
  have b: "cb' = ''11111'' \<and> cg' = ''22222'' \<and> nc' = ''X3333333333'' \<and> cle' = ''44''"
    using reconcilier_precedence [where i = "''''" and lb_cb = "''11111''"
        and lb_cg = "''22222''" and lb_nc = "''X3333333333''" and lb_cle = "''44''"]
    unfolding r2 h2 by simp
  show ?thesis
    unfolding r1 r2 using h1 h2 a b by simp
qed

section \<open>The IBAN found in a text\<close>

lemma valid_alnum:
  assumes "iban_is_valid c"
  shows "list_all ascii_alnum (iban_compact c)"
proof -
  define n where "n = iban_compact c"
  from assms have "mod97_checksum (drop 4 n @ take 4 n) = Some 1"
    by (simp add: iban_is_valid_def mod97_ok_def n_def Let_def)
  then have "list_all ascii_alnum (drop 4 n @ take 4 n)"
    by (auto simp: mod97_checksum_def to_base10_def split: if_splits option.splits)
  then have "list_all ascii_alnum (take 4 n @ drop 4 n)"
    by (simp only: list_all_append)
  then show ?thesis by (simp only: append_take_drop_id n_def)
qed

lemma valid_format:
  assumes "iban_is_valid c"
  shows "iban_format c \<noteq> [] \<and> iban_is_valid (iban_format c)
     \<and> mod97_ok (compacter (iban_format c))"
proof -
  define n where "n = iban_compact c"
  have al: "list_all ascii_alnum n" unfolding n_def using assms by (rule valid_alnum)
  from assms have ok: "mod97_ok n" "take 2 n = ''FR''"
    by (simp_all add: iban_is_valid_def n_def Let_def)
  then have "n \<noteq> []" by auto
  then have a: "iban_format c \<noteq> []" by (simp add: iban_format_def n_def group4_empty)
  have b: "iban_is_valid (iban_format c)"
    using assms by (simp add: iban_format_def iban_is_valid_group4 iban_is_valid_compact)
  have "compacter (iban_format c) = filter ascii_alnum n"
    by (simp add: compacter_def iban_format_def filter_alnum_group4 n_def)
  also have "\<dots> = n" using al by (simp add: filter_id_conv list_all_iff)
  finally have "mod97_ok (compacter (iban_format c))" using ok(1) by simp
  with a b show ?thesis by simp
qed

lemma iban_par_label_sound:
  "iban_par_label t ms = ''''
     \<or> (iban_is_valid (iban_par_label t ms) \<and> mod97_ok (compacter (iban_par_label t ms)))"
proof (induction ms)
  case Nil
  then show ?case by simp
next
  case (Cons m ms)
  then show ?case using valid_format by (auto simp: Let_def)
qed

lemma upper_compacter_digits:
  "list_all upper_or_digit (upper (compacter t))"
proof (induction t)
  case Nil
  then show ?case by (simp add: compacter_def upper_def)
next
  case (Cons c t)
  show ?case
  proof (cases "ascii_alnum c")
    case True
    then obtain c' where "upper_ch c = [c']" "ascii_upper c' \<or> ascii_digit c'"
      using upper_ch_alnum [of c] by auto
    with True Cons show ?thesis
      by (simp add: compacter_def upper_def upper_or_digit_def)
  next
    case False
    with Cons show ?thesis by (simp add: compacter_def)
  qed
qed

lemma upper_compacter_append:
  "upper (compacter (a @ b)) = upper (compacter a) @ upper (compacter b)"
  by (simp add: compacter_def upper_append)

lemma group_infix: "\<exists>pre post. t = pre @ group t m k @ post"
proof (cases "find (\<lambda>g. fst g = k) (snd (snd m))")
  case None
  then have "group t m k = []" by (simp add: group_def)
  then show ?thesis by (metis append_Nil2)
next
  case (Some g)
  obtain j a b where g: "g = (j, a, b)" by (cases g) auto
  have "group t m k = take (b - a) (drop a t)" using Some g by (simp add: group_def)
  moreover have "t = take a t @ take (b - a) (drop a t) @ drop (b - a) (drop a t)"
    by (metis append_take_drop_id)
  ultimately show ?thesis by metis
qed

lemma findall_infix:
  assumes "c \<in> set (findall r s)"
  shows "\<exists>pre post. s = pre @ c @ post"
proof -
  from assms obtain a k where "c = take k (drop a s)"
    by (auto simp: findall_def)
  moreover have "s = take a s @ take k (drop a s) @ drop k (drop a s)"
    by (metis append_take_drop_id)
  ultimately show ?thesis by metis
qed

lemma no_fr_infix:
  assumes h: "\<forall>i. i + 27 \<le> length u \<longrightarrow> take 2 (drop i u) \<noteq> ''FR''"
    and u: "u = p @ e @ q" and e: "take 2 e = ''FR''" "27 \<le> length e"
  shows False
proof -
  have "length p + 27 \<le> length u" using u e(2) by simp
  moreover have "take 2 (drop (length p) u) = ''FR''" using u e by simp
  ultimately show False using h by blast
qed

text \<open>
  C5, the claim as written, fails: the text below has no substring of the French shape
  (the two characters after \<open>FR\<close> are not two digits), and the search by label returns
  the IBAN, whose checksum is right.
\<close>

theorem extraire_iban_valide_shape_counterexample:
  "findall PAT_IBAN_FR_COMPACT (upper (compacter ''IBAN FRG9 3000 6000 0112 3456 7890 189'')) = []
     \<and> ''FRG9 3000 6000 0112 3456 7890 189''
         \<in> extraire_iban_valide ''IBAN FRG9 3000 6000 0112 3456 7890 189''"
  by code_simp

text \<open>
  C5, amended. Every result of \<open>extraire_iban_valide\<close> is the empty string or a valid
  IBAN whose compacted form passes the checksum modulo 97; and on a text whose compacted
  form in upper case has no occurrence of \<open>FR\<close> followed by 25 more characters, the
  result is the empty string.
\<close>

theorem extraire_iban_valide_sound:
  "(\<forall>r \<in> extraire_iban_valide t.
      r = '''' \<or> (iban_is_valid r \<and> mod97_ok (compacter r)))
   \<and> ((\<forall>i. i + 27 \<le> length (upper (compacter t))
          \<longrightarrow> take 2 (drop i (upper (compacter t))) \<noteq> ''FR'')
        \<longrightarrow> extraire_iban_valide t = {''''})"
proof (intro conjI ballI impI)
  fix r assume "r \<in> extraire_iban_valide t"
  then show "r = '''' \<or> (iban_is_valid r \<and> mod97_ok (compacter r))"
    using valid_format iban_par_label_sound [of t "finditer PAT_IBAN_LABEL t"]
    by (auto simp: extraire_iban_valide_def Let_def split: if_splits)
next
  define u where "u = upper (compacter t)"
  assume "\<forall>i. i + 27 \<le> length (upper (compacter t))
          \<longrightarrow> take 2 (drop i (upper (compacter t))) \<noteq> ''FR''"
  then have h: "\<forall>i. i + 27 \<le> length u \<longrightarrow> take 2 (drop i u) \<noteq> ''FR''"
    by (simp add: u_def)
  have ud: "list_all upper_or_digit u" unfolding u_def by (rule upper_compacter_digits)
  have s1: "filter iban_is_valid (findall PAT_IBAN_FR_COMPACT u) = []"
  proof -
    have "\<not> iban_is_valid c" if c: "c \<in> set (findall PAT_IBAN_FR_COMPACT u)" for c
    proof
      assume v: "iban_is_valid c"
      obtain p q where pq: "u = p @ c @ q" using findall_infix [OF c] by blast
      with ud have cd: "list_all upper_or_digit c" by simp
      then have "list_all ascii_alnum c"
        by (auto simp: list_all_iff upper_or_digit_def ascii_alnum_def)
      then have "iban_compact c = upper c" by (rule iban_compact_alnum)
      also have "\<dots> = c"
        using cd by (intro upper_fixed_id) (auto simp: list_all_iff upper_or_digit_def upper_ch_keep)
      finally have cc: "iban_compact c = c" .
      from v have "take 2 c = ''FR''" "length (drop 4 c) = 23"
        by (simp_all add: iban_is_valid_def cc bban_fr_def)
      then have "take 2 c = ''FR''" "27 \<le> length c" by simp_all
      with h pq show False by (rule no_fr_infix)
    qed
    then show ?thesis by (simp add: filter_empty_conv)
  qed
  have s2: "iban_par_label t ms = ''''" for ms
  proof (induction ms)
    case Nil
    show ?case by simp
  next
    case (Cons m ms)
    define e where "e = upper (compacter (group t m 1))"
    have "\<not> (take 2 e = ''FR'' \<and> 27 \<le> length e)"
    proof
      assume a: "take 2 e = ''FR'' \<and> 27 \<le> length e"
      obtain p q where "t = p @ group t m 1 @ q" using group_infix by blast
      then have "u = upper (compacter p) @ e @ upper (compacter q)"
        unfolding u_def e_def by (metis upper_compacter_append)
      with h a show False using no_fr_infix by blast
    qed
    with Cons show ?case by (auto simp: Let_def e_def)
  qed
  show "extraire_iban_valide t = {''''}"
    by (simp add: extraire_iban_valide_def u_def [symmetric] s1 s2)
qed

theorem extraire_iban_valide_sound_witness:
  "''FR76 3000 6000 0112 3456 7890 189''
       \<in> extraire_iban_valide ''IBAN: FR76 3000 6000 0112 3456 7890 189''
     \<and> iban_is_valid ''FR76 3000 6000 0112 3456 7890 189''
     \<and> mod97_ok (compacter ''FR76 3000 6000 0112 3456 7890 189'')
     \<and> upper (compacter ''IBAN: FR76 3000'') = ''IBANFR763000''
     \<and> extraire_iban_valide ''IBAN: FR76 3000'' = {''''}"
proof -
  have h1: "''FR76 3000 6000 0112 3456 7890 189''
       \<in> extraire_iban_valide ''IBAN: FR76 3000 6000 0112 3456 7890 189''"
    by code_simp
  have h2: "upper (compacter ''IBAN: FR76 3000'') = ''IBANFR763000''"
    by code_simp
  have h3: "\<forall>i. i + 27 \<le> length (upper (compacter ''IBAN: FR76 3000''))
          \<longrightarrow> take 2 (drop i (upper (compacter ''IBAN: FR76 3000''))) \<noteq> ''FR''"
    unfolding h2 by simp
  show ?thesis
    using h1 h2 h3 extraire_iban_valide_sound [of "''IBAN: FR76 3000 6000 0112 3456 7890 189''"]
      extraire_iban_valide_sound [of "''IBAN: FR76 3000''"]
    by blast
qed

section \<open>The matches of the BIC pattern\<close>

lemma search_from_head:
  "search_from r s i = Some (a, st) \<Longrightarrow> \<exists>rest. rmatch r s (a, []) = st # rest"
proof (induction r s i rule: search_from.induct)
  case (1 r s i)
  show ?case
  proof (cases "rmatch r s (i, [])")
    case Nil
    with 1 show ?thesis
      by (subst (asm) (2) search_from.simps) (auto split: if_splits)
  next
    case (Cons x xs)
    with "1.prems" show ?thesis
      by (subst (asm) search_from.simps) (auto split: if_splits)
  qed
qed

lemma finditer_from_match:
  "m \<in> set (finditer_from r s i) \<Longrightarrow> snd m \<in> set (rmatch r s (fst m, []))"
proof (induction r s i rule: finditer_from.induct)
  case (1 r s i)
  show ?case
  proof (cases "length s < i")
    case True
    with "1.prems" show ?thesis by (subst (asm) finditer_from.simps) simp
  next
    case False
    show ?thesis
    proof (cases "search_from r s i")
      case None
      with False "1.prems" show ?thesis by (subst (asm) finditer_from.simps) simp
    next
      case (Some x)
      obtain a st where x: "x = (a, st)" by (cases x) auto
      from "1.prems" False Some x
      have "m = (a, st) \<or> m \<in> set (finditer_from r s (max (Suc i) (if a < fst st then fst st else Suc a)))"
        by (subst (asm) finditer_from.simps) auto
      then show ?thesis
      proof
        assume "m = (a, st)"
        with Some x show ?thesis using search_from_head [of r s i a st] by auto
      next
        assume "m \<in> set (finditer_from r s (max (Suc i) (if a < fst st then fst st else Suc a)))"
        with "1.IH" [OF False Some x [symmetric]] show ?thesis by simp
      qed
    qed
  qed
qed

lemma rep_cls:
  assumes f: "\<And>x y. y \<in> set (f x) \<Longrightarrow> fst y = Suc (fst x) \<and> fst x < length s \<and> p (s ! fst x)"
  shows "st' \<in> set (rep f g lo hi n st) \<Longrightarrow>
     \<exists>k. lo \<le> k \<and> fst st' = fst st + k
       \<and> (\<forall>j<k. fst st + j < length s \<and> p (s ! (fst st + j)))"
proof (induction n arbitrary: lo hi st)
  case 0
  then show ?case by (auto split: if_splits)
next
  case (Suc n)
  from Suc.prems have "(lo = 0 \<and> st' = st)
     \<or> (\<exists>y \<in> set (f st). st' \<in> set (rep f g (lo - 1) (map_option (\<lambda>h. h - 1) hi) n y))"
    by (auto simp: Let_def split: if_splits)
  then show ?case
  proof
    assume "lo = 0 \<and> st' = st"
    then show ?thesis by auto
  next
    assume "\<exists>y \<in> set (f st). st' \<in> set (rep f g (lo - 1) (map_option (\<lambda>h. h - 1) hi) n y)"
    then obtain y where y: "y \<in> set (f st)"
      and r: "st' \<in> set (rep f g (lo - 1) (map_option (\<lambda>h. h - 1) hi) n y)"
      by blast
    from f [OF y] have c: "fst y = Suc (fst st)" "fst st < length s" "p (s ! fst st)"
      by simp_all
    from Suc.IH [OF r] obtain k where k: "lo - 1 \<le> k" "fst st' = fst y + k"
        "\<forall>j<k. fst y + j < length s \<and> p (s ! (fst y + j))"
      by auto
    have "\<forall>j<Suc k. fst st + j < length s \<and> p (s ! (fst st + j))"
    proof (intro allI impI)
      fix j assume "j < Suc k"
      then show "fst st + j < length s \<and> p (s ! (fst st + j))"
        using c k(3) by (cases j) auto
    qed
    moreover have "lo \<le> Suc k" using k(1) by simp
    moreover have "fst st' = fst st + Suc k" using k(2) c(1) by simp
    ultimately show ?thesis by blast
  qed
qed

lemma cls_step:
  "y \<in> set (rmatch (Cls p) s x) \<Longrightarrow> fst y = Suc (fst x) \<and> fst x < length s \<and> p (s ! fst x)"
  by (cases "fst x < length s \<and> p (s ! fst x)") auto

lemma rep_cls_match:
  assumes "st' \<in> set (rep (rmatch (Cls p) s) g lo hi n st)"
  shows "\<exists>k. lo \<le> k \<and> fst st' = fst st + k
       \<and> (\<forall>j<k. fst st + j < length s \<and> p (s ! (fst st + j)))"
proof (rule rep_cls [where f = "rmatch (Cls p) s" and s = s and p = p])
  show "\<And>x y. y \<in> set (rmatch (Cls p) s x)
     \<Longrightarrow> fst y = Suc (fst x) \<and> fst x < length s \<and> p (s ! fst x)"
    by (rule cls_step)
  show "st' \<in> set (rep (rmatch (Cls p) s) g lo hi n st)" by (rule assms)
qed

lemma seq_mem:
  "y \<in> set (rmatch (Seq a b) s x) \<longleftrightarrow> (\<exists>z. z \<in> set (rmatch a s x) \<and> y \<in> set (rmatch b s z))"
  by auto

lemma bnd_mem: "y \<in> set (rmatch Bnd s x) \<Longrightarrow> y = x"
  by (cases "boundary s (fst x)") auto

lemma times_mem:
  "y \<in> set (rmatch (Times n r) s x) \<longleftrightarrow> y \<in> set (rep (rmatch r s) True n (Some n) (length s) x)"
  by (simp add: Times_def)

lemma pat_bic_code_letters:
  assumes "st \<in> set (rmatch PAT_BIC_CODE s (a, []))"
  shows "\<forall>j<6. a + j < length s \<and> ascii_upper (s ! (a + j))"
proof -
  from assms obtain st0 st1 st2 where
    0: "st0 \<in> set (rmatch Bnd s (a, []))" and
    1: "st1 \<in> set (rmatch (Times 4 (Cls ascii_upper)) s st0)" and
    2: "st2 \<in> set (rmatch (Times 2 (Cls ascii_upper)) s st1)"
    unfolding PAT_BIC_CODE_def Seqs.simps seq_mem by blast
  have st0: "st0 = (a, [])" using 0 by (rule bnd_mem)
  from rep_cls_match [OF 1 [unfolded times_mem]] obtain k1 where k1: "4 \<le> k1" "fst st1 = a + k1"
      "\<forall>j<k1. a + j < length s \<and> ascii_upper (s ! (a + j))"
    unfolding st0 by auto
  from rep_cls_match [OF 2 [unfolded times_mem]] obtain k2 where k2: "2 \<le> k2"
      "\<forall>j<k2. fst st1 + j < length s \<and> ascii_upper (s ! (fst st1 + j))"
    by auto
  show ?thesis
  proof (intro allI impI)
    fix j :: nat assume j: "j < 6"
    show "a + j < length s \<and> ascii_upper (s ! (a + j))"
    proof (cases "j < k1")
      case True
      with k1 show ?thesis by simp
    next
      case False
      then have "j - k1 < k2" using j k1(1) k2(1) by simp
      with k2(2) have "fst st1 + (j - k1) < length s \<and> ascii_upper (s ! (fst st1 + (j - k1)))"
        by blast
      moreover have "fst st1 + (j - k1) = a + j" using False k1(2) by simp
      ultimately show ?thesis by simp
    qed
  qed
qed

lemma findall_bic_code_letters:
  assumes c: "c \<in> set (findall PAT_BIC_CODE s)" and l: "6 \<le> length c"
  shows "list_all ascii_upper (take 6 c)"
proof -
  from c obtain m where m: "m \<in> set (finditer_from PAT_BIC_CODE s 0)"
      "c = take (fst (snd m) - fst m) (drop (fst m) s)"
    by (auto simp: findall_def finditer_def)
  define a where "a = fst m"
  have "snd m \<in> set (rmatch PAT_BIC_CODE s (a, []))"
    unfolding a_def using m(1) by (rule finditer_from_match)
  then have u: "\<forall>j<6. a + j < length s \<and> ascii_upper (s ! (a + j))"
    by (rule pat_bic_code_letters)
  have t: "take 6 c = take 6 (drop a s)"
    using l m(2) by (simp add: a_def take_take min_def split: if_splits)
  have "\<forall>j < length (take 6 (drop a s)). ascii_upper (take 6 (drop a s) ! j)"
    using u by (auto simp: nth_append)
  then show ?thesis unfolding t by (simp only: list_all_length)
qed

section \<open>The BIC of the emitted rows\<close>

lemma valider_non_vide:
  assumes "valider_normaliser_bic lib raw \<noteq> ''''"
  shows "(length (valider_normaliser_bic lib raw) = 8 \<or> length (valider_normaliser_bic lib raw) = 11)
     \<and> list_all isalpha_ch (take 6 (valider_normaliser_bic lib raw))
     \<and> take 2 (drop 4 (valider_normaliser_bic lib raw)) = ''FR''"
proof -
  define b where "b = filter ascii_alnum (upper raw)"
  from assms have c: "length b = 8 \<or> length b = 11" "isalpha (take 4 b)"
      "isalpha (take 2 (drop 4 b))" "take 2 (drop 4 b) = ''FR''"
    unfolding valider_normaliser_bic_def b_def [symmetric] Let_def
    by (auto split: if_splits)
  from assms have v: "valider_normaliser_bic lib raw = b"
    unfolding valider_normaliser_bic_def b_def [symmetric] Let_def
    by (auto split: if_splits option.splits bool.splits)
  show ?thesis unfolding v using c isalpha_take6 [OF c(2,3)] by simp
qed

lemma premier_valide_cases:
  "premier_valide lib cs = ''''
     \<or> (\<exists>c. premier_valide lib cs = valider_normaliser_bic lib c
            \<and> valider_normaliser_bic lib c \<noteq> '''')"
  by (induction cs) (auto simp: Let_def)

lemma zones_bic_cases:
  "zones_bic lib ls = ''''
     \<or> (\<exists>c. zones_bic lib ls = valider_normaliser_bic lib c
            \<and> valider_normaliser_bic lib c \<noteq> '''')"
proof (induction ls)
  case Nil
  then show ?case by simp
next
  case (Cons l ls)
  define f where "f = upper (join_nl (take 6 (l # ls)))"
  show ?case
    using Cons premier_valide_cases [of lib "findall PAT_BIC_CODE (filter upper_or_digit f)"]
      premier_valide_cases [of lib "findall PAT_BIC_CODE f"]
    unfolding zones_bic.simps f_def [symmetric] Let_def
    by (auto split: if_splits)
qed

lemma extraire_bic_valide_utils_cases:
  "extraire_bic_valide_utils lib t = ''''
     \<or> (\<exists>c. extraire_bic_valide_utils lib t = valider_normaliser_bic lib c
            \<and> valider_normaliser_bic lib c \<noteq> '''')"
  using zones_bic_cases [of lib "splitlines t"]
    premier_valide_cases [of lib "findall PAT_BIC_CODE (filter upper_or_digit (upper t))"]
  unfolding extraire_bic_valide_utils_def Let_def by (auto split: if_splits)

lemma strip_empty: "strip [] = []"
  by (simp add: strip_def)

lemma bic_app_with_ocr_shape:
  assumes "bic_app_with_ocr lib t \<noteq> ''MANQUANT''"
  shows "(length (bic_app_with_ocr lib t) = 8 \<or> length (bic_app_with_ocr lib t) = 11)
     \<and> list_all isalpha_ch (take 6 (bic_app_with_ocr lib t))
     \<and> take 2 (drop 4 (bic_app_with_ocr lib t)) = ''FR''"
proof -
  define v where "v = extraire_bic_valide_utils lib t"
  from assms have s: "strip v \<noteq> []" and e: "bic_app_with_ocr lib t = v"
    by (auto simp: bic_app_with_ocr_def nz_app_def v_def split: if_splits)
  from s have "v \<noteq> []" using strip_empty by auto
  then obtain c where "v = valider_normaliser_bic lib c" "valider_normaliser_bic lib c \<noteq> ''''"
    using extraire_bic_valide_utils_cases [of lib t] unfolding v_def by auto
  then show ?thesis unfolding e using valider_non_vide [of lib c] by simp
qed

lemma list_all_take: "list_all P xs \<Longrightarrow> list_all P (take n xs)"
  by (auto simp: list_all_iff dest: in_set_takeD)

lemma nettoyer_bic_shape:
  "(length (nettoyer_bic x) \<le> 8 \<or> length (nettoyer_bic x) = 11)
     \<and> list_all upper_or_digit (nettoyer_bic x)"
proof -
  have "list_all upper_or_digit (upper (filter ascii_alnum x))"
    using upper_compacter_digits [of x] by (simp add: compacter_def)
  then show ?thesis
    by (auto simp: nettoyer_bic_def Let_def list_all_take)
qed

lemma col_bic_cases:
  "col_bic (traiter_reponse json_loads nom raw) = ''''
     \<or> (\<exists>x. col_bic (traiter_reponse json_loads nom raw) = nettoyer_bic x)"
  by (auto simp: traiter_reponse_def ligne_vide_def split: option.splits)

lemma upper_isalpha: "ascii_upper c \<Longrightarrow> isalpha_ch c"
  by (simp add: isalpha_ch_def)

lemma candidats_zone_Some:
  "candidats_zone lib cs = Some b \<Longrightarrow>
     (length b = 8 \<or> length b = 11) \<and> isalpha (take 4 b) \<and> isalpha (take 2 (drop 4 b))"
proof (induction cs)
  case Nil
  then show ?case by simp
next
  case (Cons c cs)
  show ?case
  proof (cases "(length c = 8 \<or> length c = 11) \<and> isalpha (take 4 c)
      \<and> isalpha (take 2 (drop 4 c))")
    case False
    with Cons show ?thesis by auto
  next
    case True
    show ?thesis
    proof (cases "c \<in> set [''PARIS'', ''BOULOGNE'', ''FRANCE'']")
      case True
      with \<open>(length c = 8 \<or> length c = 11) \<and> isalpha (take 4 c)
          \<and> isalpha (take 2 (drop 4 c))\<close> Cons show ?thesis
        by (simp del: set_simps)
    next
      case False
      with True Cons.prems have "b = c"
        by (simp del: set_simps split: option.splits bool.splits)
      with True show ?thesis by simp
    qed
  qed
qed

lemma lignes_zone_Some:
  "lignes_zone lib ls = Some b \<Longrightarrow>
     (length b = 8 \<or> length b = 11) \<and> isalpha (take 4 b) \<and> isalpha (take 2 (drop 4 b))"
  by (induction ls) (auto split: option.splits dest: candidats_zone_Some)

lemma zones_bic_rib_Some:
  "zones_bic_rib lib ls = Some b \<Longrightarrow>
     (length b = 8 \<or> length b = 11) \<and> isalpha (take 4 b) \<and> isalpha (take 2 (drop 4 b))"
proof (induction ls)
  case Nil
  then show ?case by simp
next
  case (Cons l ls)
  then show ?case
    using lignes_zone_Some [of lib "take 6 (l # ls)" b]
    unfolding zones_bic_rib.simps by (auto split: if_splits option.splits)
qed

lemma bic_rib_extractor_shape:
  assumes "bic_rib_extractor lib t \<noteq> ''MANQUANT''"
  shows "(length (bic_rib_extractor lib t) = 8 \<or> length (bic_rib_extractor lib t) = 11)
     \<and> list_all isalpha_ch (take 6 (bic_rib_extractor lib t))"
proof -
  define v where "v = extraire_bic_valide_rib_extractor lib t"
  from assms have ne: "v \<noteq> []" and e: "bic_rib_extractor lib t = v"
    by (auto simp: bic_rib_extractor_def nz_rib_def v_def split: if_splits)
  show ?thesis
  proof (cases "zones_bic_rib lib (split_nl t)")
    case (Some b)
    then have "v = b" by (simp add: v_def extraire_bic_valide_rib_extractor_def)
    with zones_bic_rib_Some [OF Some] show ?thesis
      unfolding e using isalpha_take6 by auto
  next
    case None
    with ne obtain b where f: "find (\<lambda>bic. length bic = 8 \<or> length bic = 11)
        (findall PAT_BIC_CODE (upper t)) = Some b" and vb: "v = b"
      by (auto simp: v_def extraire_bic_valide_rib_extractor_def split: option.splits)
    from f have m: "b \<in> set (findall PAT_BIC_CODE (upper t))" and l: "length b = 8 \<or> length b = 11"
      by (auto simp: find_Some_iff)
    from l have "6 \<le> length b" by auto
    with m have "list_all ascii_upper (take 6 b)" by (rule findall_bic_code_letters)
    then have "list_all isalpha_ch (take 6 b)"
      by (auto simp: list_all_iff upper_isalpha)
    with l show ?thesis unfolding e vb by simp
  qed
qed

text \<open>
  C4, the claim as written, fails in two of the three programs. On the vision-model path
  (app.py) the column is \<open>nettoyer_bic\<close> of what the model returned: nothing there tests
  the length or the letters, and the value 12345 is emitted as it is. On the OCR path of
  rib\_extractor.py nothing compares the fifth and sixth characters with \<open>FR\<close>, neither in
  the branch of the labelled zones nor in the fallback: the text \<open>BIC : DEUTDEFF\<close>, where
  the code follows a label, gives the column DEUTDEFF, and so does the bare text
  \<open>DEUTDEFF\<close>.
\<close>

theorem bic_columns_counterexample:
  "nettoyer_bic ''12345'' = ''12345'' \<and> length ''12345'' \<noteq> 8 \<and> length ''12345'' \<noteq> 11
     \<and> \<not> list_all isalpha_ch (take 6 ''12345'')
     \<and> bic_rib_extractor None ''BIC : DEUTDEFF'' = ''DEUTDEFF''
     \<and> bic_rib_extractor None ''DEUTDEFF'' = ''DEUTDEFF''
     \<and> take 2 (drop 4 ''DEUTDEFF'') \<noteq> ''FR''"
proof -
  have a: "nettoyer_bic ''12345'' = ''12345''"
    by code_simp
  have b: "\<not> list_all isalpha_ch (take 6 ''12345'')"
    by code_simp
  have c: "bic_rib_extractor None ''BIC : DEUTDEFF'' = ''DEUTDEFF''"
    by code_simp
  have d: "bic_rib_extractor None ''DEUTDEFF'' = ''DEUTDEFF''"
    by code_simp
  show ?thesis
    using a b c d by simp
qed

text \<open>
  C4, amended. In a row of app\_with\_ocr.py a BIC that is not the marker \<open>MANQUANT\<close> has
  8 or 11 characters, its first six are letters and its fifth and sixth are \<open>FR\<close>. In
  a row of rib\_extractor.py a BIC that is not the marker has 8 or 11 characters and its
  first six are letters. In a row of app.py a BIC that is not empty has at most 8 or
  exactly 11 characters, all capital letters or digits.
\<close>

theorem bic_columns_shape:
  "(bic_app_with_ocr lib t \<noteq> ''MANQUANT'' \<longrightarrow>
      (length (bic_app_with_ocr lib t) = 8 \<or> length (bic_app_with_ocr lib t) = 11)
      \<and> list_all isalpha_ch (take 6 (bic_app_with_ocr lib t))
      \<and> take 2 (drop 4 (bic_app_with_ocr lib t)) = ''FR'')
   \<and> (bic_rib_extractor lib t \<noteq> ''MANQUANT'' \<longrightarrow>
      (length (bic_rib_extractor lib t) = 8 \<or> length (bic_rib_extractor lib t) = 11)
      \<and> list_all isalpha_ch (take 6 (bic_rib_extractor lib t)))
   \<and> (col_bic (traiter_reponse json_loads nom raw) \<noteq> '''' \<longrightarrow>
      (length (col_bic (traiter_reponse json_loads nom raw)) \<le> 8
        \<or> length (col_bic (traiter_reponse json_loads nom raw)) = 11)
      \<and> list_all upper_or_digit (col_bic (traiter_reponse json_loads nom raw)))"
proof (intro conjI impI)
  assume "bic_app_with_ocr lib t \<noteq> ''MANQUANT''"
  then show "length (bic_app_with_ocr lib t) = 8 \<or> length (bic_app_with_ocr lib t) = 11"
    and "list_all isalpha_ch (take 6 (bic_app_with_ocr lib t))"
    and "take 2 (drop 4 (bic_app_with_ocr lib t)) = ''FR''"
    using bic_app_with_ocr_shape by blast+
next
  assume "bic_rib_extractor lib t \<noteq> ''MANQUANT''"
  then show "length (bic_rib_extractor lib t) = 8 \<or> length (bic_rib_extractor lib t) = 11"
    and "list_all isalpha_ch (take 6 (bic_rib_extractor lib t))"
    using bic_rib_extractor_shape by blast+
next
  assume "col_bic (traiter_reponse json_loads nom raw) \<noteq> ''''"
  then obtain x where "col_bic (traiter_reponse json_loads nom raw) = nettoyer_bic x"
    using col_bic_cases by blast
  then show "length (col_bic (traiter_reponse json_loads nom raw)) \<le> 8
      \<or> length (col_bic (traiter_reponse json_loads nom raw)) = 11"
    and "list_all upper_or_digit (col_bic (traiter_reponse json_loads nom raw))"
    using nettoyer_bic_shape [of x] by simp_all
qed

theorem bic_columns_shape_witness:
  "bic_app_with_ocr None ''BIC : bnpafrpp'' = ''BNPAFRPP''
     \<and> take 2 (drop 4 (bic_app_with_ocr None ''BIC : bnpafrpp'')) = ''FR''
     \<and> bic_rib_extractor None ''BIC : bnpafrpp'' = ''BNPAFRPP''
     \<and> list_all isalpha_ch (take 6 (bic_rib_extractor None ''BIC : bnpafrpp''))
     \<and> col_bic (traiter_reponse (\<lambda>s. Some [''bic'' \<mapsto> ''bnpa fr pp'']) ''rib.pdf'' ''{}'')
         = ''BNPAFRPP''
     \<and> list_all upper_or_digit
         (col_bic (traiter_reponse (\<lambda>s. Some [''bic'' \<mapsto> ''bnpa fr pp'']) ''rib.pdf'' ''{}''))"
proof -
  have h1: "bic_app_with_ocr None ''BIC : bnpafrpp'' = ''BNPAFRPP''"
    by code_simp
  have h2: "bic_rib_extractor None ''BIC : bnpafrpp'' = ''BNPAFRPP''"
    by code_simp
  have h3: "col_bic (traiter_reponse (\<lambda>s. Some [''bic'' \<mapsto> ''bnpa fr pp'']) ''rib.pdf'' ''{}'')
      = ''BNPAFRPP''"
    by code_simp
  have n: "''BNPAFRPP'' \<noteq> ''MANQUANT''" "''BNPAFRPP'' \<noteq> ''''" by simp_all
  show ?thesis
    using n bic_columns_shape [of None "''BIC : bnpafrpp''"
        "\<lambda>s. Some [''bic'' \<mapsto> ''bnpa fr pp'']" "''rib.pdf''" "''{}''"]
    unfolding h1 h2 h3 by blast
qed

section \<open>The span that nettoyer\_reponse\_json extracts\<close>















section \<open>The priority of the three patterns\<close>




end
